theory Spec2Isabelle
  imports Main "HOL-Library.Multiset" "HOL-Library.Signed_Division"
begin

unbundle bit_operations_syntax

section \<open>Data model of the move picker (src/Rapfi/search/movepick.h, movepick.cpp)\<close>

text \<open>
  The headers that declare \<open>Pos\<close>, \<open>Score\<close>, \<open>Move\<close>, \<open>Cell\<close>, \<open>Pattern4\<close>, \<open>Board\<close>,
  the history tables and \<open>MAX_MOVES\<close> are not among the source files at hand; the picker
  only uses them. Their shape is taken from the uses in movepick.cpp and from the
  specification's data model.
\<close>

text \<open>Modelled from the spec: \<open>Pos\<close> is declared in an absent header. A position is its raw
  index; \<open>Pos::NONE\<close> is the sentinel, and \<open>!pos\<close> (used in the DEFENDFIVE_MOVES case)
  tests for the sentinel, as the specification reads that case.\<close>
type_synonym Pos = int

definition Pos_NONE :: Pos where
  "Pos_NONE = 0"

datatype Color = BLACK | WHITE

text \<open>\<open>operator~\<close> on colours.\<close>
fun opposite :: "Color \<Rightarrow> Color" where
  "opposite BLACK = WHITE"
| "opposite WHITE = BLACK"

datatype Rule = FREESTYLE | STANDARD | RENJU

text \<open>Modelled from the spec: \<open>Score\<close> and the history entries are machine integers whose
  widths are declared in absent headers. They are mathematical integers here; C++ integer
  division truncates towards zero and is written \<open>sdiv\<close>.\<close>
type_synonym Score = int

text \<open>Modelled from the spec: a buffer element; \<open>operator<\<close> and \<open>operator>\<close> on moves
  compare the ordering key \<open>score\<close>.\<close>
record Move =
  pos :: Pos
  score :: Score
  rawScore :: Score

definition move_less :: "Move \<Rightarrow> Move \<Rightarrow> bool" where
  "move_less a b \<longleftrightarrow> score a < score b"

definition move_greater :: "Move \<Rightarrow> Move \<Rightarrow> bool" where
  "move_greater a b \<longleftrightarrow> score a > score b"

section \<open>The C++ standard library's sorts\<close>

text \<open>
  \<open>fastPartialSort\<close> calls \<open>std::sort\<close> and \<open>std::partial_sort\<close> with \<open>std::greater<>\<close>.
  The C++ standard fixes their results only up to the order of equivalent elements and,
  for \<open>std::partial_sort\<close>, leaves the order of the range behind \<open>middle\<close> unspecified.
  The library is therefore a parameter of the model, and \<open>stdlib_ok\<close> is the contract the
  standard gives.
\<close>

record stdlib =
  std_sort :: "Move list \<Rightarrow> Move list"
  std_partial_sort :: "nat \<Rightarrow> Move list \<Rightarrow> Move list"

text \<open>Descending by \<open>std::greater<>\<close>: no later element is greater than an earlier one.\<close>
definition sorted_desc :: "Move list \<Rightarrow> bool" where
  "sorted_desc xs \<longleftrightarrow> sorted_wrt (\<lambda>a b. \<not> move_greater b a) xs"

definition std_sort_post :: "Move list \<Rightarrow> Move list \<Rightarrow> bool" where
  "std_sort_post xs ys \<longleftrightarrow> mset ys = mset xs \<and> sorted_desc ys"

text \<open>\<open>std::partial_sort(first, first + k, last, greater)\<close>: the first \<open>k\<close> places hold, in
  descending order, \<open>k\<close> elements such that nothing behind them is greater.\<close>
definition std_partial_sort_post :: "nat \<Rightarrow> Move list \<Rightarrow> Move list \<Rightarrow> bool" where
  "std_partial_sort_post k xs ys \<longleftrightarrow>
     mset ys = mset xs \<and> sorted_desc (take k ys) \<and>
     (\<forall>a \<in> set (take k ys). \<forall>b \<in> set (drop k ys). \<not> move_greater b a)"

definition stdlib_ok :: "stdlib \<Rightarrow> bool" where
  "stdlib_ok L \<longleftrightarrow>
     (\<forall>xs. std_sort_post xs (std_sort L xs)) \<and>
     (\<forall>k xs. k \<le> length xs \<longrightarrow> std_partial_sort_post k xs (std_partial_sort L k xs))"

section \<open>fastPartialSort (movepick.cpp, lines 48-73)\<close>

text \<open>
  The inner loop of the insertion branch:
  \<^verbatim>\<open>for (q = sortedEnd; q != begin && *(q - 1) < tmp; --q) *q = *(q - 1);  *q = tmp;\<close>
  The array is the list, pointers are indices from \<open>begin\<close>.
\<close>
fun insertion_inner :: "Move \<Rightarrow> Move list \<Rightarrow> nat \<Rightarrow> Move list" where
  "insertion_inner tmp xs 0 = xs[0 := tmp]"
| "insertion_inner tmp xs (Suc q) =
     (if move_less (xs ! q) tmp
      then insertion_inner tmp (xs[Suc q := xs ! q]) q
      else xs[Suc q := tmp])"

lemma length_insertion_inner [simp]: "length (insertion_inner tmp xs q) = length xs"
  by (induction q arbitrary: xs) auto

text \<open>
  The outer loop:
  \<^verbatim>\<open>for (Move *sortedEnd = begin, *p = begin + 1; p < end; ++p)
    if (p->score >= limit) { Move tmp = *p, *q; *p = *++sortedEnd; <inner loop> }\<close>
\<close>
function insertion_outer :: "Score \<Rightarrow> Move list \<Rightarrow> nat \<Rightarrow> nat \<Rightarrow> Move list" where
  "insertion_outer limit xs sortedEnd p =
     (if p < length xs then
        (if score (xs ! p) \<ge> limit
         then insertion_outer limit
                (insertion_inner (xs ! p) (xs[p := xs ! Suc sortedEnd]) (Suc sortedEnd))
                (Suc sortedEnd) (Suc p)
         else insertion_outer limit xs sortedEnd (Suc p))
      else xs)"
  by pat_completeness auto
termination
  by (relation "measure (\<lambda>(limit, xs, sortedEnd, p). length xs - p)") auto

declare insertion_outer.simps [simp del]

text \<open>\<open>MAX_MOVES\<close> is declared in an absent header and is a parameter.\<close>
definition fastPartialSort :: "stdlib \<Rightarrow> nat \<Rightarrow> Move list \<Rightarrow> Score \<Rightarrow> Move list" where
  "fastPartialSort L MAX_MOVES xs limit =
     (let InsertionSortLimit = MAX_MOVES div 4;
          SortLimit = MAX_MOVES * 2 div 3;
          nMoves = length xs
      in if nMoves \<le> InsertionSortLimit then insertion_outer limit xs 0 1
         else if nMoves \<le> SortLimit then std_sort L xs
         else std_partial_sort L SortLimit xs)"

text \<open>The postcondition the specification gives for the partial sorter: the elements with
  \<open>score \<ge> limit\<close> are a prefix in descending order, everything behind has \<open>score < limit\<close>.\<close>
definition sorted_up_to_limit :: "Score \<Rightarrow> Move list \<Rightarrow> bool" where
  "sorted_up_to_limit limit ys \<longleftrightarrow>
     sorted_desc (takeWhile (\<lambda>m. limit \<le> score m) ys) \<and>
     list_all (\<lambda>m. score m < limit) (dropWhile (\<lambda>m. limit \<le> score m) ys)"

section \<open>Board, histories and the picker object\<close>

text \<open>Modelled from the spec: the enumerators of \<open>Pattern4\<close> that the picker mentions (the
  enumeration is declared in an absent header). A larger value is a stronger threat;
  \<open>FORBID\<close> is a class of its own below the threat classes. No theorem below depends on
  the numbers, only on the comparisons the code makes.\<close>
type_synonym Pattern4 = nat

definition FORBID :: Pattern4 where "FORBID = 1"
definition H_FLEX3 :: Pattern4 where "H_FLEX3 = 6"
definition E_BLOCK4 :: Pattern4 where "E_BLOCK4 = 9"
definition D_BLOCK4_PLUS :: Pattern4 where "D_BLOCK4_PLUS = 10"
definition C_BLOCK4_FLEX3 :: Pattern4 where "C_BLOCK4_FLEX3 = 11"
definition B_FLEX4 :: Pattern4 where "B_FLEX4 = 12"
definition A_FIVE :: Pattern4 where "A_FIVE = 13"

text \<open>Modelled from the spec: a board square with \<open>pattern4[color]\<close> and \<open>score[color]\<close>.\<close>
record Cell =
  pattern4 :: "Color \<Rightarrow> Pattern4"
  cell_score :: "Color \<Rightarrow> Score"

text \<open>The generation kinds that movepick.cpp instantiates \<open>generate<...>\<close> and
  \<open>generateNeighbors<...>\<close> with.\<close>
datatype GenType =
    G_WINNING
  | G_DEFEND_FIVE
  | G_DEFEND_FOUR
  | G_DEFEND_FOUR_ALL
  | G_DEFEND_B4F3 Rule
  | G_VCF
  | G_VCF_COMB
  | G_ALL

datatype HistKind = HIST_ATTACK | HIST_QUIET

text \<open>Modelled from the spec: the board capability and the generators, which live in absent
  files. The picker holds a const reference, so the board is a value. \<open>cell\<close> is an
  unchecked array lookup: \<open>None\<close> stands for a lookup outside the array. \<open>generate\<close>
  gives the entries a generator writes at the output pointer, in the order written;
  \<open>evaluator\<close> is the policy grid that \<open>evaluatePolicy\<close> fills for the flagged moves,
  \<open>None\<close> when the thread has no evaluator.\<close>
record Board =
  sideToMove :: Color
  cell :: "Pos \<Rightarrow> Cell option"
  isEmpty :: "Pos \<Rightarrow> bool"
  isInBoard :: "Pos \<Rightarrow> bool"
  p4Count :: "Color \<Rightarrow> Pattern4 \<Rightarrow> nat"
  getLastMove :: Pos
  getLastActualMoveOfSide :: "Color \<Rightarrow> Pos"
  checkForbiddenPoint :: "Pos \<Rightarrow> bool"
  validateOpponentCMove :: bool
  evaluator :: "(Pos \<Rightarrow> Score) option"
  generate :: "GenType \<Rightarrow> Move list"
  generateNeighbors :: "GenType \<Rightarrow> Pos \<Rightarrow> Move list"

text \<open>History tables are pointers that may be null: \<open>None\<close>. The counter-move table is
  indexed by \<open>lastMove.moveIndex()\<close>, a function of the position, and is keyed by the
  position here.\<close>
type_synonym MainHistory = "Color \<Rightarrow> Pos \<Rightarrow> HistKind \<Rightarrow> int"
type_synonym CounterMoveHistory = "Color \<Rightarrow> Pos \<Rightarrow> Pos \<times> Pattern4"
type_synonym MoveHistory = "Pos \<Rightarrow> int"

text \<open>The enumeration \<open>Stages\<close>; \<open>stage\<close> is an \<open>int8_t\<close> that the code increments.\<close>
definition MAIN_TT :: nat where "MAIN_TT = 0"
definition MAIN_MOVES :: nat where "MAIN_MOVES = 1"
definition DEFENDFIVE_TT :: nat where "DEFENDFIVE_TT = 2"
definition DEFENDFIVE_MOVES :: nat where "DEFENDFIVE_MOVES = 3"
definition DEFENDFOUR_TT :: nat where "DEFENDFOUR_TT = 4"
definition DEFENDFOUR_MOVES :: nat where "DEFENDFOUR_MOVES = 5"
definition DEFENDB4F3_TT :: nat where "DEFENDB4F3_TT = 6"
definition DEFENDB4F3_MOVES :: nat where "DEFENDB4F3_MOVES = 7"
definition QVCF_TT :: nat where "QVCF_TT = 8"
definition QVCF_MOVES :: nat where "QVCF_MOVES = 9"
definition ALLMOVES :: nat where "ALLMOVES = 10"

lemmas stage_defs = MAIN_TT_def MAIN_MOVES_def DEFENDFIVE_TT_def DEFENDFIVE_MOVES_def
  DEFENDFOUR_TT_def DEFENDFOUR_MOVES_def DEFENDB4F3_TT_def DEFENDB4F3_MOVES_def
  QVCF_TT_def QVCF_MOVES_def ALLMOVES_def

definition is_TT_stage :: "nat \<Rightarrow> bool" where
  "is_TT_stage s \<longleftrightarrow>
     s = MAIN_TT \<or> s = DEFENDFIVE_TT \<or> s = DEFENDFOUR_TT \<or> s = DEFENDB4F3_TT \<or> s = QVCF_TT"

text \<open>The enumeration \<open>ScoreType\<close>, a bit mask.\<close>
definition ATTACK :: nat where "ATTACK = 1"
definition DEFEND :: nat where "DEFEND = 2"
definition BALANCED :: nat where "BALANCED = ATTACK OR DEFEND"
definition POLICY :: nat where "POLICY = 4"
definition MAIN_HISTORY :: nat where "MAIN_HISTORY = 8"
definition COUNTER_MOVE :: nat where "COUNTER_MOVE = 16"
definition CONT_HISTORY :: nat where "CONT_HISTORY = 32"

lemmas ScoreType_defs = ATTACK_def DEFEND_def BALANCED_def POLICY_def MAIN_HISTORY_def
  COUNTER_MOVE_def CONT_HISTORY_def

datatype PickType = Next | Best

text \<open>
  The class \<open>MovePicker\<close>. \<open>moves\<close> is the live range \<open>[moves, endMove)\<close> of the inline
  array, \<open>curMove\<close> an index into it, \<open>endMove\<close> its length. \<open>curScore\<close>,
  \<open>curPolicyScore\<close> and \<open>maxPolicyScore\<close> are not initialised by any constructor:
  \<open>None\<close> is a member that was never assigned.
\<close>
record MovePicker =
  board :: Board
  mainHistory :: "MainHistory option"
  counterMoveHistory :: "CounterMoveHistory option"
  continuationHistory :: "(nat \<Rightarrow> MoveHistory) option"
  stage :: nat
  rule :: Rule
  ttMove :: Pos
  allowPlainB4InVCF :: bool
  hasPolicy :: bool
  curScore :: "Score option"
  curPolicyScore :: "Score option"
  maxPolicyScore :: "Score option"
  moves :: "Move list"
  curMove :: nat

record ExtraArgs_MAIN =
  main_ttMove :: Pos
  main_mainHistory :: "MainHistory option"
  main_counterMoveHistory :: "CounterMoveHistory option"
  main_continuationHistory :: "(nat \<Rightarrow> MoveHistory) option"

text \<open>Modelled from the spec: \<open>Depth\<close> is declared in an absent header; only the comparison
  with \<open>DEPTH_QVCF_FULL\<close>, a parameter of the constructor below, is used.\<close>
record ExtraArgs_QVCF =
  qvcf_ttMove :: Pos
  depth :: int
  previousSelfP4 :: "Pattern4 \<times> Pattern4"

text \<open>The generators write through a raw pointer into \<open>Move moves[MAX_MOVES]\<close>; a list longer
  than the array is a write outside it.\<close>
definition fill_buffer :: "nat \<Rightarrow> Move list \<Rightarrow> Move list option" where
  "fill_buffer MAX_MOVES ms = (if length ms \<le> MAX_MOVES then Some ms else None)"

section \<open>Constructors (movepick.cpp, lines 79-195)\<close>

definition MovePicker_ROOT :: "nat \<Rightarrow> Rule \<Rightarrow> Board \<Rightarrow> MovePicker option" where
  "MovePicker_ROOT MAX_MOVES rl b =
     (let self = sideToMove b; oppo = opposite self;
          gen =
            (if p4Count b self A_FIVE \<noteq> 0 then generate b G_WINNING
             else if p4Count b oppo A_FIVE \<noteq> 0 then generate b G_DEFEND_FIVE
             else if p4Count b self B_FLEX4 \<noteq> 0 then generate b G_WINNING
             else if p4Count b oppo B_FLEX4 \<noteq> 0
               then generate b G_DEFEND_FOUR_ALL @ generate b G_VCF
             else if p4Count b oppo C_BLOCK4_FLEX3 \<noteq> 0
                     \<and> (rl \<noteq> RENJU \<or> validateOpponentCMove b)
               then (let d = generate b (G_DEFEND_B4F3 rl)
                     in if d = [] then generate b G_ALL else d @ generate b G_VCF)
             else generate b G_ALL)
      in case fill_buffer MAX_MOVES gen of
           None \<Rightarrow> None
         | Some ms \<Rightarrow>
             Some \<lparr>board = b, mainHistory = None, counterMoveHistory = None,
                   continuationHistory = None, stage = ALLMOVES, rule = rl,
                   ttMove = Pos_NONE, allowPlainB4InVCF = False, hasPolicy = False,
                   curScore = None, curPolicyScore = None, maxPolicyScore = None,
                   moves = ms, curMove = 0\<rparr>)"

text \<open>Lines 138-157: the initial stage and the dispatch-specific validity of the TT move.
  \<open>None\<close> is a cell lookup outside the array.\<close>
definition dispatch_MAIN :: "Rule \<Rightarrow> Board \<Rightarrow> Pos \<Rightarrow> (nat \<times> bool) option" where
  "dispatch_MAIN rl b tt =
     (let oppo = opposite (sideToMove b)
      in if p4Count b oppo A_FIVE \<noteq> 0 then
           (case cell b tt of
              None \<Rightarrow> None
            | Some c \<Rightarrow> Some (DEFENDFIVE_TT, pattern4 c oppo = A_FIVE))
         else if p4Count b oppo B_FLEX4 \<noteq> 0 then
           (case cell b tt of
              None \<Rightarrow> None
            | Some ttCell \<Rightarrow>
                Some (DEFENDFOUR_TT,
                      pattern4 ttCell BLACK \<ge> E_BLOCK4 \<or> pattern4 ttCell BLACK = FORBID
                      \<or> pattern4 ttCell WHITE \<ge> E_BLOCK4))
         else if p4Count b oppo C_BLOCK4_FLEX3 \<noteq> 0
                 \<and> (rl \<noteq> RENJU \<or> validateOpponentCMove b) then
           Some (DEFENDB4F3_TT, True)
         else Some (MAIN_TT, True))"

text \<open>The main-search constructor. \<open>assert(mainHistory)\<close> fails on a null table. The buffer
  pointers are not initialised here; no path reads them before a \<open>*_MOVES\<close> stage sets
  them, and the model starts them at the empty range.\<close>
definition MovePicker_MAIN :: "Rule \<Rightarrow> Board \<Rightarrow> ExtraArgs_MAIN \<Rightarrow> MovePicker option" where
  "MovePicker_MAIN rl b args =
     (if main_mainHistory args = None then None
      else case dispatch_MAIN rl b (main_ttMove args) of
        None \<Rightarrow> None
      | Some (stage0, ttmValid0) \<Rightarrow>
          (let ttmValid = (ttmValid0 \<and> isEmpty b (main_ttMove args))
           in Some \<lparr>board = b, mainHistory = main_mainHistory args,
                    counterMoveHistory = main_counterMoveHistory args,
                    continuationHistory = main_continuationHistory args,
                    stage = stage0 + (if ttmValid then 0 else 1), rule = rl,
                    ttMove = (if ttmValid then main_ttMove args else Pos_NONE),
                    allowPlainB4InVCF = False, hasPolicy = False,
                    curScore = None, curPolicyScore = None, maxPolicyScore = None,
                    moves = [], curMove = 0\<rparr>))"

text \<open>Lines 181-188.\<close>
definition dispatch_QVCF :: "Board \<Rightarrow> Pos \<Rightarrow> (nat \<times> bool) option" where
  "dispatch_QVCF b tt =
     (let self = sideToMove b; oppo = opposite self
      in if p4Count b oppo A_FIVE \<noteq> 0 then
           (case cell b tt of
              None \<Rightarrow> None
            | Some c \<Rightarrow> Some (DEFENDFIVE_TT, pattern4 c oppo = A_FIVE))
         else
           (case cell b tt of
              None \<Rightarrow> None
            | Some c \<Rightarrow> Some (QVCF_TT, pattern4 c self \<ge> E_BLOCK4)))"

text \<open>The quick-VCF constructor. It leaves \<open>counterMoveHistory\<close> uninitialised; no path
  of a picker built here reads it.\<close>
definition MovePicker_QVCF ::
    "int \<Rightarrow> Rule \<Rightarrow> Board \<Rightarrow> ExtraArgs_QVCF \<Rightarrow> MovePicker option" where
  "MovePicker_QVCF DEPTH_QVCF_FULL rl b args =
     (case dispatch_QVCF b (qvcf_ttMove args) of
        None \<Rightarrow> None
      | Some (stage0, ttmValid0) \<Rightarrow>
          (let ttmValid = (ttmValid0 \<and> isEmpty b (qvcf_ttMove args))
           in Some \<lparr>board = b, mainHistory = None, counterMoveHistory = None,
                    continuationHistory = None,
                    stage = stage0 + (if ttmValid then 0 else 1), rule = rl,
                    ttMove = (if ttmValid then qvcf_ttMove args else Pos_NONE),
                    allowPlainB4InVCF =
                      (depth args \<ge> DEPTH_QVCF_FULL
                       \<or> (fst (previousSelfP4 args) \<ge> D_BLOCK4_PLUS
                          \<and> snd (previousSelfP4 args) \<ge> D_BLOCK4_PLUS)),
                    hasPolicy = False,
                    curScore = None, curPolicyScore = None, maxPolicyScore = None,
                    moves = [], curMove = 0\<rparr>))"

section \<open>pickNextMove (movepick.cpp, lines 200-220)\<close>

text \<open>\<open>std::max_element(first, last)\<close>: the first position of a largest element.\<close>
definition max_element :: "Move list \<Rightarrow> nat \<Rightarrow> nat" where
  "max_element xs first =
     fold (\<lambda>i largest. if move_less (xs ! largest) (xs ! i) then i else largest)
          [Suc first ..< length xs] first"

text \<open>\<open>if constexpr (T == Best) std::swap(*curMove, *std::max_element(curMove, endMove));\<close>\<close>
definition select_move :: "PickType \<Rightarrow> MovePicker \<Rightarrow> MovePicker" where
  "select_move T p =
     (case T of
        Next \<Rightarrow> p
      | Best \<Rightarrow>
          (let i = curMove p; j = max_element (moves p) i
           in p\<lparr>moves := (moves p)[i := moves p ! j, j := moves p ! i]\<rparr>))"

lemma length_moves_select_move [simp]: "length (moves (select_move T p)) = length (moves p)"
  by (cases T) (simp_all add: select_move_def Let_def)

lemma curMove_select_move [simp]: "curMove (select_move T p) = curMove p"
  by (cases T) (simp_all add: select_move_def Let_def)

text \<open>The test of lines 208-209 on the element under the cursor; \<open>forbidden\<close> is line 203; \<open>pred\<close> is the
  caller's \<open>filter\<close>.\<close>
definition accepts :: "(MovePicker \<Rightarrow> bool) \<Rightarrow> MovePicker \<Rightarrow> bool" where
  "accepts pred p =
     (let forbidden = (rule p = RENJU \<and> sideToMove (board p) = BLACK);
          m = moves p ! curMove p
      in pos m \<noteq> ttMove p
         \<and> (\<not> forbidden \<or> \<not> checkForbiddenPoint (board p) (pos m))
         \<and> pred p)"

function pickNextMove ::
    "PickType \<Rightarrow> (MovePicker \<Rightarrow> bool) \<Rightarrow> MovePicker \<Rightarrow> Pos \<times> MovePicker" where
  "pickNextMove T pred p =
     (if curMove p < length (moves p) then
        (if accepts pred (select_move T p)
         then (pos (moves (select_move T p) ! curMove p),
               (select_move T p)
                 \<lparr>curScore := Some (score (moves (select_move T p) ! curMove p)),
                  curPolicyScore := Some (rawScore (moves (select_move T p) ! curMove p)),
                  curMove := Suc (curMove p)\<rparr>)
         else pickNextMove T pred ((select_move T p)\<lparr>curMove := Suc (curMove p)\<rparr>))
      else (Pos_NONE, p))"
  by pat_completeness auto
termination
  by (relation "measure (\<lambda>(T, pred, p). length (moves p) - curMove p)") auto

declare pickNextMove.simps [simp del]

section \<open>scoreMoves (movepick.cpp, lines 223-294)\<close>

text \<open>Modelled from the spec: \<open>std::numeric_limits<Score>::lowest()\<close>; the width of \<open>Score\<close>
  is declared in an absent header, 16 bits are taken. No theorem depends on the value.\<close>
definition Score_lowest :: Score where
  "Score_lowest = - 32768"

text \<open>Lines 250-261: the base score of one move at cell \<open>c\<close>; \<open>mx\<close> is the running
  \<open>maxPolicyScore\<close>. The last branch is \<open>assert(false)\<close>.\<close>
definition baseScore ::
    "nat \<Rightarrow> Board \<Rightarrow> Cell \<Rightarrow> Score \<Rightarrow> Move \<Rightarrow> (Move \<times> Score) option" where
  "baseScore Type b c mx m =
     (let self = sideToMove b; oppo = opposite self
      in if Type AND POLICY \<noteq> 0 \<and> evaluator b \<noteq> None then
           (case evaluator b of
              None \<Rightarrow> None
            | Some policy \<Rightarrow>
                Some (m\<lparr>score := policy (pos m), rawScore := policy (pos m)\<rparr>,
                      max mx (policy (pos m))))
         else if Type AND BALANCED \<noteq> 0 then
           Some (m\<lparr>score := cell_score c self, rawScore := cell_score c self\<rparr>, mx)
         else if Type AND ATTACK \<noteq> 0 then
           Some (m\<lparr>score := (cell_score c self * 2 + cell_score c oppo) sdiv 3,
                   rawScore := (cell_score c self * 2 + cell_score c oppo) sdiv 3\<rparr>, mx)
         else if Type AND DEFEND \<noteq> 0 then
           Some (m\<lparr>score := (cell_score c self + cell_score c oppo * 2) sdiv 3,
                   rawScore := (cell_score c self + cell_score c oppo * 2) sdiv 3\<rparr>, mx)
         else None)"

text \<open>Lines 263-268. A null \<open>mainHistory\<close> cannot be dereferenced.\<close>
definition addMainHistory :: "nat \<Rightarrow> MovePicker \<Rightarrow> Cell \<Rightarrow> Move \<Rightarrow> Move option" where
  "addMainHistory Type p c m =
     (let self = sideToMove (board p)
      in if Type AND MAIN_HISTORY \<noteq> 0 then
           (case mainHistory p of
              None \<Rightarrow> None
            | Some h \<Rightarrow>
                if pattern4 c self \<ge> H_FLEX3
                then Some (m\<lparr>score := score m + h self (pos m) HIST_ATTACK sdiv 128\<rparr>)
                else Some (m\<lparr>score := score m + h self (pos m) HIST_QUIET sdiv 256\<rparr>))
         else Some m)"

text \<open>Lines 270-281, with \<open>assert(counterMoveHistory)\<close>.\<close>
definition addCounterMove :: "nat \<Rightarrow> MovePicker \<Rightarrow> Cell \<Rightarrow> Move \<Rightarrow> Move option" where
  "addCounterMove Type p c m =
     (let b = board p; self = sideToMove b; oppo = opposite self
      in if Type AND COUNTER_MOVE \<noteq> 0 then
           (case counterMoveHistory p of
              None \<Rightarrow> None
            | Some cmh \<Rightarrow>
                (let lastMove = getLastMove b
                 in if isInBoard b lastMove then
                      (let counterMove = fst (cmh oppo lastMove);
                           counterMoveP4 = snd (cmh oppo lastMove)
                       in if counterMove = pos m \<and> counterMoveP4 \<le> pattern4 c self
                          then Some (m\<lparr>score := score m + 21\<rparr>)
                          else Some m)
                    else Some m))
         else Some m)"

text \<open>Lines 283-292: only \<open>assert(continuationHistory)\<close> is left of the block.\<close>
definition addContHistory :: "nat \<Rightarrow> MovePicker \<Rightarrow> Move \<Rightarrow> Move option" where
  "addContHistory Type p m =
     (if Type AND CONT_HISTORY \<noteq> 0 \<and> continuationHistory p = None then None else Some m)"

text \<open>The body of the loop of line 247 for one move.\<close>
definition scoreMove ::
    "nat \<Rightarrow> MovePicker \<Rightarrow> Score \<Rightarrow> Move \<Rightarrow> (Move \<times> Score) option" where
  "scoreMove Type p mx m =
     (case cell (board p) (pos m) of
        None \<Rightarrow> None
      | Some c \<Rightarrow>
          (case baseScore Type (board p) c mx m of
             None \<Rightarrow> None
           | Some (m1, mx1) \<Rightarrow>
               (case addMainHistory Type p c m1 of
                  None \<Rightarrow> None
                | Some m2 \<Rightarrow>
                    (case addCounterMove Type p c m2 of
                       None \<Rightarrow> None
                     | Some m3 \<Rightarrow>
                         (case addContHistory Type p m3 of
                            None \<Rightarrow> None
                          | Some m4 \<Rightarrow> Some (m4, mx1))))))"

fun scoreMoves_loop ::
    "nat \<Rightarrow> MovePicker \<Rightarrow> Score \<Rightarrow> Move list \<Rightarrow> (Move list \<times> Score) option" where
  "scoreMoves_loop Type p mx [] = Some ([], mx)"
| "scoreMoves_loop Type p mx (m # ms) =
     (case scoreMove Type p mx m of
        None \<Rightarrow> None
      | Some (m', mx') \<Rightarrow>
          (case scoreMoves_loop Type p mx' ms of
             None \<Rightarrow> None
           | Some (ms', mx'') \<Rightarrow> Some (m' # ms', mx'')))"

text \<open>\<open>for (auto &m : *this)\<close> runs over \<open>[curMove, endMove)\<close>. With \<open>POLICY\<close> and an
  evaluator, \<open>hasPolicy\<close> is set and \<open>maxPolicyScore\<close> starts at \<open>lowest() / 2\<close>.\<close>
definition scoreMoves :: "nat \<Rightarrow> MovePicker \<Rightarrow> MovePicker option" where
  "scoreMoves Type p =
     (let usePolicy = (Type AND POLICY \<noteq> 0 \<and> evaluator (board p) \<noteq> None)
      in case scoreMoves_loop Type p (Score_lowest sdiv 2) (drop (curMove p) (moves p)) of
           None \<Rightarrow> None
         | Some (ms, mx) \<Rightarrow>
             Some (p\<lparr>moves := take (curMove p) (moves p) @ ms,
                     hasPolicy := (usePolicy \<or> hasPolicy p),
                     maxPolicyScore := (if usePolicy then Some mx else maxPolicyScore p)\<rparr>))"

section \<open>operator() (movepick.cpp, lines 298-392)\<close>

definition case_ALLMOVES :: "MovePicker \<Rightarrow> (Pos \<times> MovePicker) option" where
  "case_ALLMOVES p = Some (pickNextMove Next (\<lambda>_. True) p)"

text \<open>The tail shared by the scored stages: score, \<open>fastPartialSort(curMove, endMove, 0)\<close>,
  \<open>stage = ALLMOVES; goto top\<close>.\<close>
definition score_sort_stream ::
    "stdlib \<Rightarrow> nat \<Rightarrow> nat \<Rightarrow> MovePicker \<Rightarrow> (Pos \<times> MovePicker) option" where
  "score_sort_stream L MAX_MOVES Type p =
     (case scoreMoves Type p of
        None \<Rightarrow> None
      | Some p1 \<Rightarrow>
          case_ALLMOVES
            (p1\<lparr>moves := take (curMove p1) (moves p1)
                          @ fastPartialSort L MAX_MOVES (drop (curMove p1) (moves p1)) 0,
                stage := ALLMOVES\<rparr>))"

definition case_MAIN_MOVES ::
    "stdlib \<Rightarrow> nat \<Rightarrow> MovePicker \<Rightarrow> (Pos \<times> MovePicker) option" where
  "case_MAIN_MOVES L MAX_MOVES p =
     (let b = board p; oppo = opposite (sideToMove b)
      in if p4Count b oppo A_FIVE \<noteq> 0 \<or> p4Count b oppo B_FLEX4 \<noteq> 0 then None
         else case fill_buffer MAX_MOVES (generate b G_ALL) of
           None \<Rightarrow> None
         | Some ms \<Rightarrow>
             score_sort_stream L MAX_MOVES
               (BALANCED OR POLICY OR MAIN_HISTORY OR COUNTER_MOVE OR CONT_HISTORY)
               (p\<lparr>moves := ms, curMove := 0\<rparr>))"

definition case_DEFENDFIVE_MOVES :: "nat \<Rightarrow> MovePicker \<Rightarrow> (Pos \<times> MovePicker) option" where
  "case_DEFENDFIVE_MOVES MAX_MOVES p =
     (let b = board p; oppo = opposite (sideToMove b)
      in if p4Count b oppo A_FIVE = 0 then None
         else case fill_buffer MAX_MOVES
                     (if ttMove p = Pos_NONE then generate b G_DEFEND_FIVE else []) of
           None \<Rightarrow> None
         | Some ms \<Rightarrow> case_ALLMOVES (p\<lparr>moves := ms, curMove := 0, stage := ALLMOVES\<rparr>))"

definition case_DEFENDFOUR_MOVES ::
    "stdlib \<Rightarrow> nat \<Rightarrow> MovePicker \<Rightarrow> (Pos \<times> MovePicker) option" where
  "case_DEFENDFOUR_MOVES L MAX_MOVES p =
     (let b = board p; oppo = opposite (sideToMove b)
      in if p4Count b oppo B_FLEX4 = 0 then None
         else case fill_buffer MAX_MOVES (generate b G_DEFEND_FOUR @ generate b G_VCF) of
           None \<Rightarrow> None
         | Some ms \<Rightarrow>
             score_sort_stream L MAX_MOVES (BALANCED OR POLICY OR MAIN_HISTORY)
               (p\<lparr>moves := ms, curMove := 0\<rparr>))"

definition case_DEFENDB4F3_MOVES ::
    "stdlib \<Rightarrow> nat \<Rightarrow> MovePicker \<Rightarrow> (Pos \<times> MovePicker) option" where
  "case_DEFENDB4F3_MOVES L MAX_MOVES p =
     (let b = board p; oppo = opposite (sideToMove b)
      in if p4Count b oppo C_BLOCK4_FLEX3 = 0 then None
         else if generate b (G_DEFEND_B4F3 (rule p)) = []
           then case_MAIN_MOVES L MAX_MOVES (p\<lparr>moves := [], curMove := 0, stage := MAIN_MOVES\<rparr>)
         else case fill_buffer MAX_MOVES
                     (generate b (G_DEFEND_B4F3 (rule p)) @ generate b G_VCF) of
           None \<Rightarrow> None
         | Some ms \<Rightarrow>
             score_sort_stream L MAX_MOVES (BALANCED OR POLICY OR MAIN_HISTORY)
               (p\<lparr>moves := ms, curMove := 0\<rparr>))"

definition case_QVCF_MOVES ::
    "stdlib \<Rightarrow> nat \<Rightarrow> MovePicker \<Rightarrow> (Pos \<times> MovePicker) option" where
  "case_QVCF_MOVES L MAX_MOVES p =
     (let b = board p; selfLast = getLastActualMoveOfSide b (sideToMove b)
      in case fill_buffer MAX_MOVES
                (generateNeighbors b (if allowPlainB4InVCF p then G_VCF else G_VCF_COMB)
                   selfLast) of
           None \<Rightarrow> None
         | Some ms \<Rightarrow>
             score_sort_stream L MAX_MOVES BALANCED (p\<lparr>moves := ms, curMove := 0\<rparr>))"

text \<open>The streaming operation. \<open>None\<close> is a failed assertion, a null or out-of-range
  access; the last branch is \<open>assert(false && "unknown MovePicker stage occurred")\<close>.\<close>
definition MovePicker_call ::
    "stdlib \<Rightarrow> nat \<Rightarrow> MovePicker \<Rightarrow> (Pos \<times> MovePicker) option" where
  "MovePicker_call L MAX_MOVES p =
     (if is_TT_stage (stage p) then Some (ttMove p, p\<lparr>stage := stage p + 1\<rparr>)
      else if stage p = MAIN_MOVES then case_MAIN_MOVES L MAX_MOVES p
      else if stage p = DEFENDFIVE_MOVES then case_DEFENDFIVE_MOVES MAX_MOVES p
      else if stage p = DEFENDFOUR_MOVES then case_DEFENDFOUR_MOVES L MAX_MOVES p
      else if stage p = DEFENDB4F3_MOVES then case_DEFENDB4F3_MOVES L MAX_MOVES p
      else if stage p = QVCF_MOVES then case_QVCF_MOVES L MAX_MOVES p
      else if stage p = ALLMOVES then case_ALLMOVES p
      else None)"

text \<open>\<open>n\<close> successive calls: the positions returned, in order, and the final state.\<close>
fun calls :: "stdlib \<Rightarrow> nat \<Rightarrow> nat \<Rightarrow> MovePicker \<Rightarrow> (Pos list \<times> MovePicker) option" where
  "calls L MAX_MOVES 0 p = Some ([], p)"
| "calls L MAX_MOVES (Suc n) p =
     (case MovePicker_call L MAX_MOVES p of
        None \<Rightarrow> None
      | Some (x, p') \<Rightarrow>
          (case calls L MAX_MOVES n p' of
             None \<Rightarrow> None
           | Some (xs, p'') \<Rightarrow> Some (x # xs, p'')))"

section \<open>A reference library and concrete inputs\<close>

text \<open>A library that meets \<open>stdlib_ok\<close>: a stable descending sort, and a partial sort that
  puts the \<open>k\<close> highest first and leaves the others in their original order.\<close>
definition ref_sort :: "Move list \<Rightarrow> Move list" where
  "ref_sort xs = rev (sort_key score xs)"

definition ref_partial_sort :: "nat \<Rightarrow> Move list \<Rightarrow> Move list" where
  "ref_partial_sort k xs = (let top = take k (ref_sort xs) in top @ fold remove1 top xs)"

definition ref_stdlib :: stdlib where
  "ref_stdlib = \<lparr>std_sort = ref_sort, std_partial_sort = ref_partial_sort\<rparr>"

text \<open>A move at position \<open>s\<close> whose scores are \<open>s\<close>.\<close>
definition mk :: "int \<Rightarrow> Move" where
  "mk s = \<lparr>pos = s, score = s, rawScore = s\<rparr>"

text \<open>The scores \<open>1, 2, 3, \<dots>, k + 2\<close> in ascending order.\<close>
definition ramp :: "nat \<Rightarrow> Move list" where
  "ramp k = mk 1 # mk 2 # map (\<lambda>i. mk (int i + 3)) [0 ..< k]"

text \<open>A cell from its four entries: \<open>pattern4[BLACK]\<close>, \<open>pattern4[WHITE]\<close>,
  \<open>score[BLACK]\<close>, \<open>score[WHITE]\<close>.\<close>
definition test_cell :: "Pattern4 \<Rightarrow> Pattern4 \<Rightarrow> Score \<Rightarrow> Score \<Rightarrow> Cell" where
  "test_cell pb pw sb sw =
     \<lparr>pattern4 = (\<lambda>c. case c of BLACK \<Rightarrow> pb | WHITE \<Rightarrow> pw),
      cell_score = (\<lambda>c. case c of BLACK \<Rightarrow> sb | WHITE \<Rightarrow> sw)\<rparr>"

text \<open>A board from the side to move, the threat counts, the cell array, the forbidden points
  and the generator; the sentinel is the only square that is not empty, there is no last
  move and no evaluator.\<close>
definition test_board ::
    "Color \<Rightarrow> (Color \<Rightarrow> Pattern4 \<Rightarrow> nat) \<Rightarrow> (Pos \<Rightarrow> Cell option) \<Rightarrow> (Pos \<Rightarrow> bool)
     \<Rightarrow> (GenType \<Rightarrow> Move list) \<Rightarrow> Board" where
  "test_board side counts cells forbidden gen =
     \<lparr>sideToMove = side, cell = cells, isEmpty = (\<lambda>q. q \<noteq> Pos_NONE),
      isInBoard = (\<lambda>q. q \<noteq> Pos_NONE), p4Count = counts, getLastMove = Pos_NONE,
      getLastActualMoveOfSide = (\<lambda>_. Pos_NONE), checkForbiddenPoint = forbidden,
      validateOpponentCMove = True, evaluator = None, generate = gen,
      generateNeighbors = (\<lambda>g _. gen g)\<rparr>"

text \<open>Square 7 is a forbidden point for Black, square 3 a flex-three for Black and a block-four
  for White, square 5 a five for White, square 6 a block-four for Black.\<close>
definition test_cells :: "Pos \<Rightarrow> Cell option" where
  "test_cells q =
     Some (if q = 7 then test_cell FORBID 0 5 2
           else if q = 3 then test_cell H_FLEX3 E_BLOCK4 3 9
           else if q = 5 then test_cell 0 A_FIVE 2 8
           else if q = 6 then test_cell E_BLOCK4 0 4 4
           else test_cell 0 0 1 1)"

text \<open>Threat counts: none; one open-four point for White; one five point for White.\<close>
definition no_threat :: "Color \<Rightarrow> Pattern4 \<Rightarrow> nat" where
  "no_threat c p4 = 0"

definition white_flex4 :: "Color \<Rightarrow> Pattern4 \<Rightarrow> nat" where
  "white_flex4 c p4 = (if c = WHITE \<and> p4 = B_FLEX4 then 1 else 0)"

definition white_five :: "Color \<Rightarrow> Pattern4 \<Rightarrow> nat" where
  "white_five c p4 = (if c = WHITE \<and> p4 = A_FIVE then 1 else 0)"

text \<open>A generator that finds nothing for the VCF kinds and the moves 7, 3, 4 for every other
  kind (\<open>mk s\<close> carries the leftover scores \<open>s\<close>).\<close>
definition test_gen :: "GenType \<Rightarrow> Move list" where
  "test_gen g = (case g of G_VCF \<Rightarrow> [] | G_VCF_COMB \<Rightarrow> [] | _ \<Rightarrow> [mk 7, mk 3, mk 4])"

text \<open>A main-history table with negative entries.\<close>
definition test_history :: MainHistory where
  "test_history c q k = (case k of HIST_ATTACK \<Rightarrow> - 1 | HIST_QUIET \<Rightarrow> - 300)"

text \<open>Constructor arguments with every history table present.\<close>
definition main_args :: "Pos \<Rightarrow> ExtraArgs_MAIN" where
  "main_args tt =
     \<lparr>main_ttMove = tt, main_mainHistory = Some test_history,
      main_counterMoveHistory = Some (\<lambda>_ _. (Pos_NONE, 0)),
      main_continuationHistory = Some (\<lambda>_ _. 0)\<rparr>"

definition qvcf_args :: "Pos \<Rightarrow> ExtraArgs_QVCF" where
  "qvcf_args tt = \<lparr>qvcf_ttMove = tt, depth = 0, previousSelfP4 = (0, 0)\<rparr>"

text \<open>Black to move; White threatens an open four (the first board), nothing (the second), a
  five (the third).\<close>
definition renju_board :: Board where
  "renju_board = test_board BLACK white_flex4 test_cells (\<lambda>q. q = 7) test_gen"

definition quiet_board :: Board where
  "quiet_board = test_board BLACK no_threat test_cells (\<lambda>q. False) test_gen"

definition five_board :: Board where
  "five_board = test_board BLACK white_five test_cells (\<lambda>q. False) test_gen"

text \<open>A cell array that does not reach the sentinel: the lookup at \<open>Pos::NONE\<close> is outside it.\<close>
definition partial_cells :: "Pos \<Rightarrow> Cell option" where
  "partial_cells q = (if q = Pos_NONE then None else test_cells q)"

definition partial_quiet_board :: Board where
  "partial_quiet_board = test_board BLACK no_threat partial_cells (\<lambda>q. False) test_gen"

definition partial_five_board :: Board where
  "partial_five_board = test_board BLACK white_five partial_cells (\<lambda>q. False) test_gen"

text \<open>A picker at stage ALLMOVES over a given buffer, with the main history only.\<close>
definition test_picker :: "Rule \<Rightarrow> Board \<Rightarrow> Move list \<Rightarrow> MovePicker" where
  "test_picker rl b ms =
     \<lparr>board = b, mainHistory = Some test_history, counterMoveHistory = None,
      continuationHistory = None, stage = ALLMOVES, rule = rl, ttMove = Pos_NONE,
      allowPlainB4InVCF = False, hasPolicy = False, curScore = None,
      curPolicyScore = None, maxPolicyScore = None, moves = ms, curMove = 0\<rparr>"

text \<open>A board whose generators meet \<open>generation_sound\<close>: square 5 is a five for White,
  square 6 a block-four for Black, square 3 a flex-three for Black and a block-four for
  White; square 8 is occupied (its cell entries are those of a four for Black and a five
  for White). The generators give the five point for \<open>DEFEND_FIVE\<close>, the squares 3 and 6
  for \<open>DEFEND_FOUR\<close>, square 6 for the VCF kinds and the empty squares 3, 6, 4 otherwise.\<close>
definition sound_cells :: "Pos \<Rightarrow> Cell option" where
  "sound_cells q =
     Some (if q = 3 then test_cell H_FLEX3 E_BLOCK4 3 9
           else if q = 5 then test_cell 0 A_FIVE 2 8
           else if q = 6 then test_cell E_BLOCK4 0 4 4
           else if q = 8 then test_cell D_BLOCK4_PLUS A_FIVE 6 6
           else test_cell 0 0 1 1)"

definition sound_gen :: "GenType \<Rightarrow> Move list" where
  "sound_gen g =
     (case g of G_DEFEND_FIVE \<Rightarrow> [mk 5] | G_DEFEND_FOUR \<Rightarrow> [mk 3, mk 6]
      | G_VCF \<Rightarrow> [mk 6] | G_VCF_COMB \<Rightarrow> [mk 6] | _ \<Rightarrow> [mk 3, mk 6, mk 4])"

definition sound_board :: "(Color \<Rightarrow> Pattern4 \<Rightarrow> nat) \<Rightarrow> Board" where
  "sound_board counts =
     (test_board BLACK counts sound_cells (\<lambda>q. False) sound_gen)
       \<lparr>isEmpty := (\<lambda>q. q \<noteq> Pos_NONE \<and> q \<noteq> 8)\<rparr>"

section \<open>Predicates of the specification\<close>

text \<open>A call behind the TT stage streams from a buffer: it is \<open>pickNextMove\<close> on a state
  \<open>p0\<close> at stage ALLMOVES with the board, rule and ttMove of \<open>p\<close>.\<close>
definition streams_from :: "MovePicker \<Rightarrow> MovePicker \<Rightarrow> bool" where
  "streams_from p p0 \<longleftrightarrow>
     stage p0 = ALLMOVES \<and> board p0 = board p \<and> rule p0 = rule p \<and> ttMove p0 = ttMove p"

text \<open>The test of \<open>pickNextMove\<close> on a buffer element, with the always-true filter.\<close>
definition streamable :: "MovePicker \<Rightarrow> Move \<Rightarrow> bool" where
  "streamable p m \<longleftrightarrow>
     pos m \<noteq> ttMove p
     \<and> \<not> (rule p = RENJU \<and> sideToMove (board p) = BLACK \<and> checkForbiddenPoint (board p) (pos m))"

text \<open>What the picker needs from the generators: every list a stage generates fits the buffer of
  \<open>MAX_MOVES\<close> entries, and its moves are squares of the cell array.\<close>
definition generation_ok :: "nat \<Rightarrow> Rule \<Rightarrow> Board \<Rightarrow> bool" where
  "generation_ok MAX_MOVES rl b \<longleftrightarrow>
     (\<forall>ms \<in> {generate b G_WINNING, generate b G_DEFEND_FIVE, generate b G_ALL,
              generate b G_DEFEND_FOUR_ALL @ generate b G_VCF,
              generate b G_DEFEND_FOUR @ generate b G_VCF,
              generate b (G_DEFEND_B4F3 rl) @ generate b G_VCF,
              generateNeighbors b G_VCF (getLastActualMoveOfSide b (sideToMove b)),
              generateNeighbors b G_VCF_COMB (getLastActualMoveOfSide b (sideToMove b))}.
        length ms \<le> MAX_MOVES \<and> (\<forall>m \<in> set ms. cell b (pos m) \<noteq> None))"

text \<open>What the constructors establish, stage by stage: the threat that the dispatch found (the
  assertions of the \<open>*_MOVES\<close> cases), the history tables the scorer of that stage
  dereferences, and a buffer within capacity once streaming has begun.\<close>
definition ready :: "nat \<Rightarrow> MovePicker \<Rightarrow> bool" where
  "ready MAX_MOVES p \<longleftrightarrow>
     generation_ok MAX_MOVES (rule p) (board p) \<and>
     (let b = board p; oppo = opposite (sideToMove b); s = stage p
      in (s = MAIN_TT \<or> s = MAIN_MOVES \<longrightarrow>
            p4Count b oppo A_FIVE = 0 \<and> p4Count b oppo B_FLEX4 = 0 \<and> mainHistory p \<noteq> None
            \<and> counterMoveHistory p \<noteq> None \<and> continuationHistory p \<noteq> None)
       \<and> (s = DEFENDFIVE_TT \<or> s = DEFENDFIVE_MOVES \<longrightarrow> p4Count b oppo A_FIVE \<noteq> 0)
       \<and> (s = DEFENDFOUR_TT \<or> s = DEFENDFOUR_MOVES \<longrightarrow>
            p4Count b oppo B_FLEX4 \<noteq> 0 \<and> mainHistory p \<noteq> None)
       \<and> (s = DEFENDB4F3_TT \<or> s = DEFENDB4F3_MOVES \<longrightarrow>
            p4Count b oppo C_BLOCK4_FLEX3 \<noteq> 0 \<and> p4Count b oppo A_FIVE = 0
            \<and> p4Count b oppo B_FLEX4 = 0 \<and> mainHistory p \<noteq> None
            \<and> counterMoveHistory p \<noteq> None \<and> continuationHistory p \<noteq> None)
       \<and> (s = ALLMOVES \<longrightarrow> length (moves p) \<le> MAX_MOVES)
       \<and> s \<le> ALLMOVES)"

text \<open>Repeated calls return at most \<open>bound\<close> positions and then \<open>Pos::NONE\<close>.\<close>
definition exhausts_within :: "stdlib \<Rightarrow> nat \<Rightarrow> nat \<Rightarrow> MovePicker \<Rightarrow> bool" where
  "exhausts_within L MAX_MOVES bound p \<longleftrightarrow>
     (\<exists>n \<le> bound. case calls L MAX_MOVES (Suc n) p of
                     None \<Rightarrow> False
                   | Some (ys, p') \<Rightarrow> last ys = Pos_NONE \<and> Pos_NONE \<notin> set (butlast ys))"

text \<open>The history term of lines 263-268 for a move at square \<open>q\<close> with cell \<open>c\<close>: C++
  division, which truncates towards zero.\<close>
definition main_history_bonus :: "MainHistory \<Rightarrow> Color \<Rightarrow> Cell \<Rightarrow> Pos \<Rightarrow> int" where
  "main_history_bonus h self c q =
     (if pattern4 c self \<ge> H_FLEX3 then h self q HIST_ATTACK sdiv 128
      else h self q HIST_QUIET sdiv 256)"

text \<open>The dispatch-specific tests of the constructors on a square \<open>q\<close>: the opponent would
  make five there (lines 140 and 183), the test of line 146, and the side to move would
  make a four there (line 187). A lookup outside the cell array passes no test.\<close>
definition defends_five :: "Board \<Rightarrow> Pos \<Rightarrow> bool" where
  "defends_five b q \<longleftrightarrow>
     (case cell b q of None \<Rightarrow> False
      | Some c \<Rightarrow> pattern4 c (opposite (sideToMove b)) = A_FIVE)"

definition defends_four :: "Board \<Rightarrow> Pos \<Rightarrow> bool" where
  "defends_four b q \<longleftrightarrow>
     (case cell b q of None \<Rightarrow> False
      | Some c \<Rightarrow> pattern4 c BLACK \<ge> E_BLOCK4 \<or> pattern4 c BLACK = FORBID
                  \<or> pattern4 c WHITE \<ge> E_BLOCK4)"

definition makes_four :: "Board \<Rightarrow> Pos \<Rightarrow> bool" where
  "makes_four b q \<longleftrightarrow>
     (case cell b q of None \<Rightarrow> False | Some c \<Rightarrow> pattern4 c (sideToMove b) \<ge> E_BLOCK4)"

text \<open>Modelled from the spec: what the generation kinds mean (section 6 of the
  specification: \<open>ALL\<close> is every legal empty cell, \<open>DEFEND_FIVE\<close> the moves that prevent
  the opponent's five, \<open>DEFEND_FOUR\<close> the moves defending an open four, \<open>VCF\<close> the
  four-making candidates), as far as the validity tests of the constructors use it; the
  generators live in absent files. Every generated move is on an empty square; a
  \<open>DEFEND_FIVE\<close> move is on a square where the opponent makes five, a \<open>VCF\<close> move on a
  square where the side to move makes a four, a \<open>DEFEND_FOUR\<close> move on a square that the
  test of line 146 accepts.\<close>
definition generation_sound :: "Rule \<Rightarrow> Board \<Rightarrow> bool" where
  "generation_sound rl b \<longleftrightarrow>
     (let selfLast = getLastActualMoveOfSide b (sideToMove b)
      in (\<forall>m \<in> set (generate b G_ALL @ generate b (G_DEFEND_B4F3 rl)). isEmpty b (pos m))
       \<and> (\<forall>m \<in> set (generate b G_DEFEND_FIVE). isEmpty b (pos m) \<and> defends_five b (pos m))
       \<and> (\<forall>m \<in> set (generate b G_DEFEND_FOUR). isEmpty b (pos m) \<and> defends_four b (pos m))
       \<and> (\<forall>m \<in> set (generate b G_VCF @ generateNeighbors b G_VCF selfLast
                        @ generateNeighbors b G_VCF_COMB selfLast).
             isEmpty b (pos m) \<and> makes_four b (pos m)))"

section \<open>Properties of fastPartialSort\<close>

lemma sorted_desc_iff: "sorted_desc S \<longleftrightarrow> sorted (map score (rev S))"
  by (simp add: sorted_desc_def move_greater_def sorted_wrt_rev sorted_wrt_map
      rev_map [symmetric] not_less del: rev_map)

text \<open>The inner loop inserts \<open>tmp\<close> into the sorted prefix \<open>S\<close>, overwriting the slot
  behind it.\<close>
lemma insertion_inner_insort:
  "insertion_inner tmp (S @ x # R) (length S) = rev (insort_key score tmp (rev S)) @ R"
proof (induction S arbitrary: x R rule: rev_induct)
  case Nil
  then show ?case by simp
next
  case (snoc y S)
  show ?case
  proof (cases "move_less y tmp")
    case True
    have "insertion_inner tmp ((S @ [y]) @ x # R) (length (S @ [y]))
        = insertion_inner tmp (S @ y # y # R) (length S)"
      using True by (simp add: nth_append list_update_append)
    also have "\<dots> = rev (insort_key score tmp (rev S)) @ y # R"
      by (rule snoc.IH)
    finally show ?thesis using True by (simp add: move_less_def)
  next
    case False
    then show ?thesis by (simp add: nth_append list_update_append move_less_def)
  qed
qed

lemma sorted_desc_insort:
  "sorted_desc S \<Longrightarrow> sorted_desc (rev (insort_key score tmp (rev S)))"
  by (simp add: sorted_desc_iff sorted_insort_key)

text \<open>The invariant of the outer loop: the array is a sorted block \<open>S\<close> of
  \<open>sortedEnd + 1\<close> elements, a block \<open>T\<close> below the limit up to \<open>p\<close>, and the rest.\<close>
lemma insertion_outer_inv:
  "length S = Suc se \<Longrightarrow> p = length S + length T \<Longrightarrow> sorted_desc S \<Longrightarrow>
   \<forall>t \<in> set T. score t < limit \<Longrightarrow>
   \<exists>S' T'. insertion_outer limit (S @ T @ U) se p = S' @ T' \<and> sorted_desc S' \<and>
     (\<forall>t \<in> set T'. score t < limit) \<and> mset (S' @ T') = mset (S @ T @ U)"
proof (induction U arbitrary: S T se p)
  case Nil
  then show ?case
    by (subst insertion_outer.simps) auto
next
  case (Cons u U)
  let ?xs = "S @ T @ u # U"
  have p: "p < length ?xs" "?xs ! p = u" using Cons.prems by (auto simp: nth_append)
  show ?case
  proof (cases "limit \<le> score u")
    case False
    have "insertion_outer limit ?xs se p = insertion_outer limit (S @ (T @ [u]) @ U) se (Suc p)"
      using p False by (subst insertion_outer.simps) simp
    moreover have "\<exists>S' T'. insertion_outer limit (S @ (T @ [u]) @ U) se (Suc p) = S' @ T'
        \<and> sorted_desc S' \<and> (\<forall>t \<in> set T'. score t < limit)
        \<and> mset (S' @ T') = mset (S @ (T @ [u]) @ U)"
      using Cons.prems False by (intro Cons.IH) auto
    ultimately show ?thesis by simp
  next
    case True
    let ?S' = "rev (insort_key score u (rev S))"
    have step: "\<exists>T'. insertion_inner u (?xs[p := ?xs ! Suc se]) (Suc se) = ?S' @ T' @ U
        \<and> length T' = length T \<and> mset T' = mset T"
    proof (cases T)
      case Nil
      then have "Suc se = p" using Cons.prems by simp
      have "?xs[p := ?xs ! p] = ?xs" by (rule list_update_id)
      then have "?xs[p := ?xs ! Suc se] = S @ u # U" using \<open>Suc se = p\<close> Nil by simp
      then show ?thesis using insertion_inner_insort [of u S u U] Cons.prems(1) Nil by simp
    next
      case (Cons t T2)
      have "?xs ! Suc se = t" using Cons Cons.prems(1) by (simp add: nth_append)
      moreover have "?xs[p := t] = S @ t # (T2 @ t # U)"
        using Cons \<open>p = length S + length T\<close> by (simp add: list_update_append)
      ultimately have
        "insertion_inner u (?xs[p := ?xs ! Suc se]) (Suc se) = ?S' @ (T2 @ [t]) @ U"
        using insertion_inner_insort [of u S t "T2 @ t # U"] \<open>length S = Suc se\<close> by simp
      then show ?thesis using Cons by (intro exI [of _ "T2 @ [t]"]) simp
    qed
    then obtain T' where T': "insertion_inner u (?xs[p := ?xs ! Suc se]) (Suc se) = ?S' @ T' @ U"
      "length T' = length T" "mset T' = mset T" by blast
    have "insertion_outer limit ?xs se p = insertion_outer limit (?S' @ T' @ U) (Suc se) (Suc p)"
      using p True T'(1) by (subst insertion_outer.simps) simp
    moreover have "\<forall>t \<in> set T'. score t < limit"
      using Cons.prems(4) T'(3) by (metis set_mset_mset)
    then have "\<exists>S'' T''. insertion_outer limit (?S' @ T' @ U) (Suc se) (Suc p) = S'' @ T''
        \<and> sorted_desc S'' \<and> (\<forall>t \<in> set T''. score t < limit)
        \<and> mset (S'' @ T'') = mset (?S' @ T' @ U)"
      using Cons.prems T'(2) by (intro Cons.IH) (auto simp: sorted_desc_insort)
    ultimately show ?thesis using T'(3) by auto
  qed
qed

lemma sorted_up_to_limit_append:
  "sorted_desc A \<Longrightarrow> \<forall>b \<in> set B. score b < limit \<Longrightarrow> sorted_up_to_limit limit (A @ B)"
proof (induction A)
  case Nil
  then show ?case
    by (cases B) (auto simp: sorted_up_to_limit_def sorted_desc_def list_all_iff)
next
  case (Cons a A)
  then have A: "sorted_desc A" and le: "\<forall>x \<in> set A. score x \<le> score a"
    by (auto simp: sorted_desc_def move_greater_def not_less)
  show ?case
  proof (cases "limit \<le> score a")
    case True
    have "sorted_up_to_limit limit (A @ B)" using Cons.IH A Cons.prems by simp
    then show ?thesis using True le Cons.prems(2)
      by (fastforce simp: sorted_up_to_limit_def sorted_desc_def move_greater_def not_less
          dest: set_takeWhileD)
  next
    case False
    then show ?thesis using le Cons.prems(2)
      by (auto simp: sorted_up_to_limit_def sorted_desc_def list_all_iff)
  qed
qed

lemma insertion_branch:
  "mset (insertion_outer limit xs 0 1) = mset xs
   \<and> sorted_up_to_limit limit (insertion_outer limit xs 0 1)"
proof (cases xs)
  case Nil
  then show ?thesis
    by (subst (1 2) insertion_outer.simps) (simp add: sorted_up_to_limit_def sorted_desc_def)
next
  case (Cons x U)
  have "\<exists>S' T'. insertion_outer limit ([x] @ [] @ U) 0 1 = S' @ T' \<and> sorted_desc S' \<and>
     (\<forall>t \<in> set T'. score t < limit) \<and> mset (S' @ T') = mset ([x] @ [] @ U)"
    by (rule insertion_outer_inv) (auto simp: sorted_desc_def)
  then show ?thesis using Cons by (auto simp: sorted_up_to_limit_append)
qed

lemma sort_branch: "std_sort_post xs ys \<Longrightarrow> sorted_up_to_limit limit ys"
  using sorted_up_to_limit_append [of ys "[]" limit] by (simp add: std_sort_post_def)

text \<open>Behind the sorted block of \<open>std::partial_sort\<close> nothing reaches the limit, provided
  the block has room for every element that does.\<close>
lemma partial_branch:
  assumes post: "std_partial_sort_post K xs ys"
    and cnt: "length (filter (\<lambda>m. limit \<le> score m) xs) \<le> K"
  shows "sorted_up_to_limit limit ys"
proof -
  let ?P = "\<lambda>m. limit \<le> score m"
  from post have ms: "mset ys = mset xs" and srt: "sorted_desc (take K ys)"
    and dom: "\<forall>a \<in> set (take K ys). \<forall>b \<in> set (drop K ys). score b \<le> score a"
    by (auto simp: std_partial_sort_post_def move_greater_def not_less)
  have cnt_ys: "length (filter ?P ys) \<le> K"
  proof -
    have "length (filter ?P ys) = size (filter_mset ?P (mset ys))"
      by (metis mset_filter size_mset)
    also have "\<dots> = length (filter ?P xs)"
      unfolding ms by (metis mset_filter size_mset)
    finally show ?thesis using cnt by simp
  qed
  have tail: "\<forall>b \<in> set (drop K ys). score b < limit"
  proof (rule ccontr)
    assume "\<not> ?thesis"
    then obtain b where b: "b \<in> set (drop K ys)" "limit \<le> score b" by force
    then have nonempty: "drop K ys \<noteq> []" by auto
    then have len: "length (take K ys) = K" by simp
    have "\<forall>a \<in> set (take K ys). ?P a" using dom b by force
    then have "filter ?P (take K ys) = take K ys" by simp
    moreover have "filter ?P (drop K ys) \<noteq> []" using b by (auto simp: filter_empty_conv)
    moreover have "filter ?P ys = filter ?P (take K ys) @ filter ?P (drop K ys)"
      by (metis append_take_drop_id filter_append)
    ultimately have "length (filter ?P ys) > K"
      using len by (cases "filter ?P (drop K ys)") auto
    then show False using cnt_ys by simp
  qed
  have "sorted_up_to_limit limit (take K ys @ drop K ys)"
    using srt tail by (rule sorted_up_to_limit_append)
  then show ?thesis by simp
qed

subsection \<open>The reference library meets the contract\<close>

lemma sorted_desc_ref_sort: "sorted_desc (ref_sort xs)"
  by (simp add: sorted_desc_iff ref_sort_def)

lemma mset_ref_sort: "mset (ref_sort xs) = mset xs"
  by (simp add: ref_sort_def)

lemma mset_fold_remove1: "mset (fold remove1 ys xs) = mset xs - mset ys"
  by (induction ys arbitrary: xs) auto

lemma sorted_desc_take: "sorted_desc xs \<Longrightarrow> sorted_desc (take k xs)"
  by (simp add: sorted_desc_def sorted_wrt_take)

lemma ref_partial_sort_post:
  assumes "k \<le> length xs"
  shows "std_partial_sort_post k xs (ref_partial_sort k xs)"
proof -
  let ?s = "ref_sort xs"
  let ?top = "take k ?s"
  let ?rest = "fold remove1 ?top xs"
  have len: "length ?top = k" using assms by (simp add: ref_sort_def)
  have split: "mset xs = mset ?top + mset (drop k ?s)"
    by (metis append_take_drop_id mset_append mset_ref_sort)
  have rest: "mset ?rest = mset (drop k ?s)"
    by (simp add: mset_fold_remove1) (metis add_diff_cancel_left' split)
  have "sorted_wrt (\<lambda>a b. \<not> move_greater b a) (take k ?s @ drop k ?s)"
    using sorted_desc_ref_sort [of xs] by (simp add: sorted_desc_def)
  then have dom: "\<forall>a \<in> set ?top. \<forall>b \<in> set (drop k ?s). \<not> move_greater b a"
    unfolding sorted_wrt_append by blast
  have "set ?rest = set (drop k ?s)" using rest by (metis set_mset_mset)
  then show ?thesis
    using len dom split rest sorted_desc_take [OF sorted_desc_ref_sort, of k xs]
    by (simp add: std_partial_sort_post_def ref_partial_sort_def Let_def)
qed

lemma ref_stdlib_ok: "stdlib_ok ref_stdlib"
  by (simp add: stdlib_ok_def ref_stdlib_def std_sort_post_def mset_ref_sort
      sorted_desc_ref_sort ref_partial_sort_post)

lemma fold_remove1_distinct:
  "distinct xs \<Longrightarrow> fold remove1 ys xs = filter (\<lambda>x. x \<notin> set ys) xs"
proof (induction ys arbitrary: xs)
  case Nil
  then show ?case by simp
next
  case (Cons y ys)
  have "remove1 y xs = filter (\<lambda>x. x \<noteq> y) xs"
    using Cons.prems by (simp add: distinct_remove1_removeAll removeAll_filter_not_eq) metis
  then show ?case using Cons by (auto intro: filter_cong)
qed

subsection \<open>What every branch keeps\<close>

lemma mset_fastPartialSort:
  assumes "stdlib_ok L"
  shows "mset (fastPartialSort L MAX_MOVES xs limit) = mset xs"
proof -
  have "mset (std_sort L xs) = mset xs"
    using assms by (simp add: stdlib_ok_def std_sort_post_def)
  moreover have "MAX_MOVES * 2 div 3 \<le> length xs \<Longrightarrow>
      mset (std_partial_sort L (MAX_MOVES * 2 div 3) xs) = mset xs"
    using assms by (simp add: stdlib_ok_def std_partial_sort_post_def)
  ultimately show ?thesis
    using insertion_branch [of limit xs] by (simp add: fastPartialSort_def Let_def)
qed

lemma length_fastPartialSort:
  "stdlib_ok L \<Longrightarrow> length (fastPartialSort L MAX_MOVES xs limit) = length xs"
  using mset_fastPartialSort [of L MAX_MOVES xs limit] by (metis size_mset)

subsection \<open>Claim C1\<close>

text \<open>
  Claim C1 says that after \<open>fastPartialSort\<close> the elements with \<open>score \<ge> limit\<close> are a
  descending prefix and everything behind them is below the limit, for every length up to
  \<open>MAX_MOVES\<close>, the lengths above \<open>2 * MAX_MOVES / 3\<close> included. On that last branch the
  code calls \<open>std::partial_sort(begin, begin + SortLimit, end)\<close>, which orders the first
  \<open>SortLimit\<close> places only. With \<open>MAX_MOVES = 6\<close> (\<open>SortLimit = 4\<close>), \<open>limit = 0\<close> and the
  scores \<open>1, 2, 3, 4, 5, 6\<close> a conforming library returns \<open>6, 5, 4, 3, 1, 2\<close>: every
  element reaches the limit, and the range is not in descending order. (Heap selection,
  the usual implementation of \<open>std::partial_sort\<close>, leaves this very array: the heap of the
  first four gives up \<open>1\<close> and then \<open>2\<close> to the two places behind it.)
\<close>
theorem fastPartialSort_partial_branch_counterexample:
  "stdlib_ok ref_stdlib \<and> length (map mk [1, 2, 3, 4, 5, 6]) \<le> 6 \<and>
   fastPartialSort ref_stdlib 6 (map mk [1, 2, 3, 4, 5, 6]) 0 = map mk [6, 5, 4, 3, 1, 2] \<and>
   \<not> sorted_up_to_limit 0 (fastPartialSort ref_stdlib 6 (map mk [1, 2, 3, 4, 5, 6]) 0)"
proof (intro conjI)
  show "stdlib_ok ref_stdlib" by (rule ref_stdlib_ok)
  show "length (map mk [1, 2, 3, 4, 5, 6]) \<le> 6" by simp
  show "fastPartialSort ref_stdlib 6 (map mk [1, 2, 3, 4, 5, 6]) 0 = map mk [6, 5, 4, 3, 1, 2]"
    by (simp add: fastPartialSort_def ref_stdlib_def ref_partial_sort_def ref_sort_def mk_def)
  show "\<not> sorted_up_to_limit 0 (fastPartialSort ref_stdlib 6 (map mk [1, 2, 3, 4, 5, 6]) 0)"
    by (simp add: fastPartialSort_def ref_stdlib_def ref_partial_sort_def ref_sort_def mk_def
        sorted_up_to_limit_def sorted_desc_def move_greater_def)
qed

text \<open>The failure does not depend on the value of \<open>MAX_MOVES\<close>: for every
  \<open>MAX_MOVES \<ge> 5\<close> the ascending scores \<open>1, \<dots>, SortLimit + 2\<close> fit the buffer and come
  back with \<open>1, 2\<close> at the end.\<close>
lemma fastPartialSort_partial_branch_unsorted:
  assumes M: "5 \<le> M"
  shows "length (ramp (M * 2 div 3)) \<le> M \<and>
         \<not> sorted_up_to_limit 0 (fastPartialSort ref_stdlib M (ramp (M * 2 div 3)) 0)"
proof -
  let ?K = "M * 2 div 3"
  let ?hi = "map (\<lambda>i. mk (int i + 3)) [0 ..< ?K]"
  let ?xs = "ramp ?K"
  have xs: "?xs = [mk 1, mk 2] @ ?hi" by (simp add: ramp_def)
  have len: "length ?xs = ?K + 2" by (simp add: ramp_def)
  have lenM: "length ?xs \<le> M" using M len by linarith
  have dhi: "distinct ?hi" by (simp add: distinct_map inj_on_def mk_def)
  have notin: "mk 1 \<notin> set ?hi" "mk 2 \<notin> set ?hi" by (auto simp: mk_def)
  have dist: "distinct ?xs" using dhi notin by (simp add: xs mk_def)
  have "sorted (map score ?hi)"
    by (simp add: comp_def mk_def sorted_map sorted_wrt_iff_nth_less)
  moreover have "\<forall>s \<in> set (map score ?hi). 2 \<le> s" by (auto simp: mk_def)
  ultimately have "sorted (map score ?xs)" by (simp add: xs mk_def)
  then have rs: "ref_sort ?xs = rev ?xs" by (simp add: ref_sort_def sort_key_id_if_sorted)
  have top: "take ?K (rev ?xs) = rev ?hi" by (simp add: xs)
  have "filter (\<lambda>x. x \<notin> set ?hi) ?hi = []" by (simp add: filter_empty_conv)
  then have rest: "filter (\<lambda>x. x \<notin> set (rev ?hi)) ?xs = [mk 1, mk 2]"
    using notin by (simp add: xs)
  have res: "ref_partial_sort ?K ?xs = rev ?hi @ [mk 1, mk 2]"
    using top rest fold_remove1_distinct [OF dist, of "rev ?hi"]
    by (simp add: ref_partial_sort_def Let_def rs)
  have "\<not> length ?xs \<le> M div 4" "\<not> length ?xs \<le> ?K" using len by linarith+
  then have branch: "fastPartialSort ref_stdlib M ?xs 0 = ref_partial_sort ?K ?xs"
    by (simp add: fastPartialSort_def ref_stdlib_def Let_def)
  have "\<forall>m \<in> set (rev ?hi @ [mk 1, mk 2]). 0 \<le> score m" by (auto simp: mk_def)
  then have tw: "takeWhile (\<lambda>m. 0 \<le> score m) (rev ?hi @ [mk 1, mk 2]) = rev ?hi @ [mk 1, mk 2]"
    by (meson takeWhile_eq_all_conv)
  have ns: "\<not> sorted_desc (rev ?hi @ [mk 1, mk 2])"
    by (simp add: sorted_desc_def sorted_wrt_append move_greater_def mk_def)
  show ?thesis unfolding sorted_up_to_limit_def branch res tw using lenM ns by blast
qed

text \<open>The insertion branch on a short list (\<open>MAX_MOVES = 16\<close>, so up to four moves): the
  first element stays in the sorted block whatever its score.\<close>
lemma fastPartialSort_insertion_example:
  "fastPartialSort L 16 (map mk [- 1, 2, - 3, 5]) 0 = map mk [5, 2, - 1, - 3]"
  by (simp add: fastPartialSort_def mk_def insertion_outer.simps move_less_def)

text \<open>
  Claim C1, amended: for every library that meets the standard's contract, every
  \<open>MAX_MOVES\<close>, range and limit, \<open>fastPartialSort\<close> permutes the range; if at most
  \<open>2 * MAX_MOVES / 3\<close> elements have \<open>score \<ge> limit\<close> (in particular whenever the range is
  no longer than that) these elements end up as a prefix in descending score order with
  every element behind them below the limit; and for a longer range the first
  \<open>2 * MAX_MOVES / 3\<close> places hold, in descending order, elements that nothing behind them
  exceeds, the order behind them being unspecified.
\<close>
theorem fastPartialSort_sorted_up_to_limit:
  "stdlib_ok L \<Longrightarrow>
     mset (fastPartialSort L MAX_MOVES xs limit) = mset xs \<and>
     (length (filter (\<lambda>m. limit \<le> score m) xs) \<le> MAX_MOVES * 2 div 3 \<longrightarrow>
        sorted_up_to_limit limit (fastPartialSort L MAX_MOVES xs limit)) \<and>
     (MAX_MOVES * 2 div 3 < length xs \<longrightarrow>
        std_partial_sort_post (MAX_MOVES * 2 div 3) xs (fastPartialSort L MAX_MOVES xs limit))"
proof -
  assume ok: "stdlib_ok L"
  let ?K = "MAX_MOVES * 2 div 3"
  consider (ins) "length xs \<le> MAX_MOVES div 4"
    | (srt) "\<not> length xs \<le> MAX_MOVES div 4" "length xs \<le> ?K"
    | (par) "\<not> length xs \<le> MAX_MOVES div 4" "\<not> length xs \<le> ?K" by blast
  then show ?thesis
  proof cases
    case ins
    then have "length xs \<le> ?K" by linarith
    then show ?thesis using ins insertion_branch [of limit xs]
      by (simp add: fastPartialSort_def)
  next
    case srt
    have "std_sort_post xs (std_sort L xs)" using ok by (simp add: stdlib_ok_def)
    then show ?thesis using srt sort_branch [of xs "std_sort L xs" limit]
      by (simp add: fastPartialSort_def std_sort_post_def)
  next
    case par
    then have "std_partial_sort_post ?K xs (std_partial_sort L ?K xs)"
      using ok by (simp add: stdlib_ok_def)
    then show ?thesis using par partial_branch [of ?K xs "std_partial_sort L ?K xs" limit]
      by (simp add: fastPartialSort_def std_partial_sort_post_def)
  qed
qed

theorem fastPartialSort_sorted_up_to_limit_witness:
  "stdlib_ok ref_stdlib \<and>
   length (filter (\<lambda>m. 0 \<le> score m) (map mk [1, - 2, 3, - 1, 7, 5])) \<le> 6 * 2 div 3 \<and>
   6 * 2 div 3 < length (map mk [1, - 2, 3, - 1, 7, 5]) \<and>
   mset (fastPartialSort ref_stdlib 6 (map mk [1, - 2, 3, - 1, 7, 5]) 0)
     = mset (map mk [1, - 2, 3, - 1, 7, 5]) \<and>
   sorted_up_to_limit 0 (fastPartialSort ref_stdlib 6 (map mk [1, - 2, 3, - 1, 7, 5]) 0) \<and>
   std_partial_sort_post (6 * 2 div 3) (map mk [1, - 2, 3, - 1, 7, 5])
     (fastPartialSort ref_stdlib 6 (map mk [1, - 2, 3, - 1, 7, 5]) 0)"
  using fastPartialSort_sorted_up_to_limit [OF ref_stdlib_ok, where MAX_MOVES = 6
      and limit = 0 and xs = "map mk [1, - 2, 3, - 1, 7, 5]"] ref_stdlib_ok
  by (simp add: mk_def)

section \<open>Properties of the streaming operation\<close>

lemma select_move_fields [simp]:
  "board (select_move T p) = board p" "rule (select_move T p) = rule p"
  "ttMove (select_move T p) = ttMove p" "stage (select_move T p) = stage p"
  by (cases T; simp add: select_move_def Let_def)+

lemma select_move_Next [simp]: "select_move Next p = p"
  by (simp add: select_move_def)

text \<open>
What one run of the loop of \<open>pickNextMove\<close> returns: NONE with the buffer exhausted, or the
  element under the cursor, which is neither the TT move nor a forbidden point, with
  \<open>curScore\<close> and \<open>curPolicyScore\<close> taken from it.
\<close>
lemma pickNextMove_props:
  "pickNextMove T pred p = (x, p') \<Longrightarrow>
     board p' = board p \<and> rule p' = rule p \<and> ttMove p' = ttMove p \<and> stage p' = stage p
     \<and> length (moves p') = length (moves p)
     \<and> ((x = Pos_NONE \<and> length (moves p') \<le> curMove p' \<or> length (moves p) \<le> curMove p \<and> p' = p \<and> x = Pos_NONE)
        \<or> (curMove p < curMove p' \<and> curMove p' \<le> length (moves p')
            \<and> x = pos (moves p' ! (curMove p' - 1))
            \<and> x \<noteq> ttMove p
            \<and> \<not> (rule p = RENJU \<and> sideToMove (board p) = BLACK \<and> checkForbiddenPoint (board p) x)
            \<and> curScore p' = Some (score (moves p' ! (curMove p' - 1)))
            \<and> curPolicyScore p' = Some (rawScore (moves p' ! (curMove p' - 1)))))"
proof (induction T pred p arbitrary: x p' rule: pickNextMove.induct)
  case (1 T pred p)
  show ?case
  proof (cases "curMove p < length (moves p)")
    case False
    then show ?thesis using "1.prems" by (simp add: pickNextMove.simps)
  next
    case True
    let ?q = "select_move T p"
    show ?thesis
    proof (cases "accepts pred ?q")
      case acc: True
      then show ?thesis using True "1.prems"
        by (auto simp: pickNextMove.simps [of T pred p] accepts_def Let_def)
    next
      case rej: False
      have eq: "pickNextMove T pred (?q\<lparr>curMove := Suc (curMove p)\<rparr>) = (x, p')"
        using True rej "1.prems" by (simp add: pickNextMove.simps [of T pred p])
      from "1.IH" [OF True rej eq] show ?thesis by auto
    qed
  qed
qed

lemma scoreMoves_loop_length:
  "scoreMoves_loop Type p mx ms = Some (ms', mx') \<Longrightarrow> length ms' = length ms"
  by (induction ms arbitrary: mx ms' mx') (auto split: option.splits prod.splits)

lemma scoreMoves_fields:
  "scoreMoves Type p = Some p1 \<Longrightarrow>
     board p1 = board p \<and> rule p1 = rule p \<and> ttMove p1 = ttMove p \<and> stage p1 = stage p
     \<and> curMove p1 = curMove p \<and> length (moves p1) = length (moves p)
     \<and> mainHistory p1 = mainHistory p"
  by (auto simp: scoreMoves_def Let_def split: option.splits prod.splits
      dest!: scoreMoves_loop_length)

lemma case_ALLMOVES_streams:
  "stage p = ALLMOVES \<Longrightarrow> case_ALLMOVES p = Some r \<Longrightarrow>
     \<exists>p0. streams_from p p0 \<and> r = pickNextMove Next (\<lambda>_. True) p0 \<and> p0 = p"
  by (auto simp: case_ALLMOVES_def streams_from_def)

lemma score_sort_stream_streams:
  "score_sort_stream L M Type p = Some r \<Longrightarrow>
     \<exists>p0. streams_from p p0 \<and> r = pickNextMove Next (\<lambda>_. True) p0
       \<and> curMove p0 = curMove p
       \<and> (stdlib_ok L \<longrightarrow> length (moves p0) = length (moves p))"
proof -
  assume a: "score_sort_stream L M Type p = Some r"
  then obtain p1 where p1: "scoreMoves Type p = Some p1"
    and r: "r = pickNextMove Next (\<lambda>_. True)
                 (p1\<lparr>moves := take (curMove p1) (moves p1)
                          @ fastPartialSort L M (drop (curMove p1) (moves p1)) 0,
                     stage := ALLMOVES\<rparr>)"
    by (auto simp: score_sort_stream_def case_ALLMOVES_def split: option.splits)
  show ?thesis
    using r scoreMoves_fields [OF p1]
    by (intro exI [of _ "p1\<lparr>moves := take (curMove p1) (moves p1)
                          @ fastPartialSort L M (drop (curMove p1) (moves p1)) 0,
                     stage := ALLMOVES\<rparr>"])
       (auto simp: streams_from_def length_fastPartialSort)
qed

lemma case_MAIN_MOVES_streams:
  "case_MAIN_MOVES L M p = Some r \<Longrightarrow>
     \<exists>p0. streams_from p p0 \<and> r = pickNextMove Next (\<lambda>_. True) p0
       \<and> curMove p0 = 0 \<and> (stdlib_ok L \<longrightarrow> length (moves p0) \<le> M)"
  by (auto simp: case_MAIN_MOVES_def Let_def fill_buffer_def streams_from_def
      split: option.splits if_splits dest!: score_sort_stream_streams)

lemma case_DEFENDFIVE_MOVES_streams:
  "case_DEFENDFIVE_MOVES M p = Some r \<Longrightarrow>
     \<exists>p0. streams_from p p0 \<and> r = pickNextMove Next (\<lambda>_. True) p0
       \<and> curMove p0 = 0 \<and> length (moves p0) \<le> M"
proof -
  assume a: "case_DEFENDFIVE_MOVES M p = Some r"
  let ?ms = "if ttMove p = Pos_NONE then generate (board p) G_DEFEND_FIVE else []"
  let ?p0 = "p\<lparr>moves := ?ms, curMove := 0, stage := ALLMOVES\<rparr>"
  from a have "length ?ms \<le> M" and "r = pickNextMove Next (\<lambda>_. True) ?p0"
    by (auto simp: case_DEFENDFIVE_MOVES_def Let_def fill_buffer_def case_ALLMOVES_def
        split: option.splits if_splits)
  then show ?thesis
    by (intro exI [of _ ?p0]) (simp add: streams_from_def)
qed

lemma case_DEFENDFOUR_MOVES_streams:
  "case_DEFENDFOUR_MOVES L M p = Some r \<Longrightarrow>
     \<exists>p0. streams_from p p0 \<and> r = pickNextMove Next (\<lambda>_. True) p0
       \<and> curMove p0 = 0 \<and> (stdlib_ok L \<longrightarrow> length (moves p0) \<le> M)"
  by (auto simp: case_DEFENDFOUR_MOVES_def Let_def fill_buffer_def streams_from_def
      split: option.splits if_splits dest!: score_sort_stream_streams)

lemma case_DEFENDB4F3_MOVES_streams:
  "case_DEFENDB4F3_MOVES L M p = Some r \<Longrightarrow>
     \<exists>p0. streams_from p p0 \<and> r = pickNextMove Next (\<lambda>_. True) p0
       \<and> curMove p0 = 0 \<and> (stdlib_ok L \<longrightarrow> length (moves p0) \<le> M)"
  by (auto simp: case_DEFENDB4F3_MOVES_def Let_def fill_buffer_def streams_from_def
      split: option.splits if_splits dest!: score_sort_stream_streams case_MAIN_MOVES_streams)

lemma case_QVCF_MOVES_streams:
  "case_QVCF_MOVES L M p = Some r \<Longrightarrow>
     \<exists>p0. streams_from p p0 \<and> r = pickNextMove Next (\<lambda>_. True) p0
       \<and> curMove p0 = 0 \<and> (stdlib_ok L \<longrightarrow> length (moves p0) \<le> M)"
  by (auto simp: case_QVCF_MOVES_def Let_def fill_buffer_def streams_from_def
      split: option.splits if_splits dest!: score_sort_stream_streams)

text \<open>
Every case behind the TT stage ends in \<open>pickNextMove\<close> on a freshly set-up or the
  current buffer.
\<close>
lemma call_streams:
  assumes "\<not> is_TT_stage (stage p)" and "MovePicker_call L M p = Some r"
  shows "\<exists>p0. streams_from p p0 \<and> r = pickNextMove Next (\<lambda>_. True) p0
           \<and> (stage p = ALLMOVES \<longrightarrow> p0 = p)
           \<and> (stage p \<noteq> ALLMOVES \<longrightarrow> curMove p0 = 0 \<and> (stdlib_ok L \<longrightarrow> length (moves p0) \<le> M))"
proof -
  consider "stage p = MAIN_MOVES" | "stage p = DEFENDFIVE_MOVES" | "stage p = DEFENDFOUR_MOVES"
    | "stage p = DEFENDB4F3_MOVES" | "stage p = QVCF_MOVES" | "stage p = ALLMOVES"
    using assms by (auto simp: MovePicker_call_def split: if_splits)
  then show ?thesis
  proof cases
    case 1
    then show ?thesis using assms case_MAIN_MOVES_streams [of L M p r]
      by (auto simp: MovePicker_call_def stage_defs)
  next
    case 2
    then show ?thesis using assms case_DEFENDFIVE_MOVES_streams [of M p r]
      by (auto simp: MovePicker_call_def stage_defs)
  next
    case 3
    then show ?thesis using assms case_DEFENDFOUR_MOVES_streams [of L M p r]
      by (auto simp: MovePicker_call_def stage_defs)
  next
    case 4
    then show ?thesis using assms case_DEFENDB4F3_MOVES_streams [of L M p r]
      by (auto simp: MovePicker_call_def stage_defs)
  next
    case 5
    then show ?thesis using assms case_QVCF_MOVES_streams [of L M p r]
      by (auto simp: MovePicker_call_def stage_defs)
  next
    case 6
    then show ?thesis using assms case_ALLMOVES_streams [of p r]
      by (auto simp: MovePicker_call_def stage_defs)
  qed
qed

lemma not_TT_ALLMOVES [simp]: "\<not> is_TT_stage ALLMOVES"
  by (simp add: is_TT_stage_def stage_defs)

lemma not_TT_succ: "is_TT_stage s \<Longrightarrow> \<not> is_TT_stage (s + 1)"
  by (auto simp: is_TT_stage_def stage_defs)

lemma call_TT:
  "is_TT_stage (stage p) \<Longrightarrow>
     MovePicker_call L M p = Some (ttMove p, p\<lparr>stage := stage p + 1\<rparr>)"
  by (simp add: MovePicker_call_def)

lemma call_ALLMOVES:
  "stage p = ALLMOVES \<Longrightarrow> MovePicker_call L M p = Some (pickNextMove Next (\<lambda>_. True) p)"
  by (simp add: MovePicker_call_def case_ALLMOVES_def is_TT_stage_def stage_defs)

lemma call_buffer:
  assumes "\<not> is_TT_stage (stage p)" and "MovePicker_call L M p = Some (x, p')"
  shows "stage p' = ALLMOVES \<and> board p' = board p \<and> rule p' = rule p \<and> ttMove p' = ttMove p
     \<and> (x = Pos_NONE \<and> length (moves p') \<le> curMove p'
        \<or> (0 < curMove p' \<and> curMove p' \<le> length (moves p')
            \<and> x = pos (moves p' ! (curMove p' - 1))
            \<and> x \<noteq> ttMove p
            \<and> \<not> (rule p = RENJU \<and> sideToMove (board p) = BLACK \<and> checkForbiddenPoint (board p) x)
            \<and> curScore p' = Some (score (moves p' ! (curMove p' - 1)))
            \<and> curPolicyScore p' = Some (rawScore (moves p' ! (curMove p' - 1)))))"
proof -
  from call_streams [OF assms] obtain p0 where
    p0: "streams_from p p0" "(x, p') = pickNextMove Next (\<lambda>_. True) p0" by blast
  from pickNextMove_props [OF p0(2) [symmetric]] p0(1)
  show ?thesis by (auto simp: streams_from_def)
qed

lemma calls_buffer:
  "\<not> is_TT_stage (stage p) \<Longrightarrow> calls L M n p = Some (xs, p') \<Longrightarrow>
     \<forall>x \<in> set xs. x = Pos_NONE \<or>
       (x \<noteq> ttMove p
        \<and> \<not> (rule p = RENJU \<and> sideToMove (board p) = BLACK \<and> checkForbiddenPoint (board p) x))"
proof (induction n arbitrary: p xs p')
  case 0
  then show ?case by simp
next
  case (Suc n)
  from Suc.prems(2) obtain x p1 ys where
    c: "MovePicker_call L M p = Some (x, p1)" and r: "calls L M n p1 = Some (ys, p')"
    and xs: "xs = x # ys"
    by (auto split: option.splits prod.splits)
  from call_buffer [OF Suc.prems(1) c] have
    inv: "stage p1 = ALLMOVES" "board p1 = board p" "rule p1 = rule p" "ttMove p1 = ttMove p"
    and x: "x = Pos_NONE \<or> (x \<noteq> ttMove p
        \<and> \<not> (rule p = RENJU \<and> sideToMove (board p) = BLACK \<and> checkForbiddenPoint (board p) x))"
    by auto
  have "\<not> is_TT_stage (stage p1)" using inv(1) by simp
  from Suc.IH [OF this r] inv x xs show ?case by auto
qed

lemma calls_Suc_cong:
  "MovePicker_call L M p = MovePicker_call L M q \<Longrightarrow> calls L M (Suc n) p = calls L M (Suc n) q"
  by simp

lemma accepts_streamable:
  "accepts (\<lambda>_. True) p \<longleftrightarrow> streamable p (moves p ! curMove p)"
  by (auto simp: accepts_def streamable_def Let_def)

lemma streamable_cong:
  "ttMove q = ttMove p \<Longrightarrow> rule q = rule p \<Longrightarrow> board q = board p \<Longrightarrow>
     streamable q = streamable p"
  by (auto simp: streamable_def fun_eq_iff)

text \<open>
At stage ALLMOVES the calls return the positions of the streamable moves that the buffer
  has left, in buffer order, then NONE; the buffer itself is not changed.
\<close>
lemma ALLMOVES_stream:
  "stage p = ALLMOVES \<Longrightarrow> rest = drop (curMove p) (moves p) \<Longrightarrow>
     \<exists>p'. calls L M (Suc (length (filter (streamable p) rest))) p
            = Some (map pos (filter (streamable p) rest) @ [Pos_NONE], p')
          \<and> moves p' = moves p"
proof (induction rest arbitrary: p)
  case Nil
  then have "\<not> curMove p < length (moves p)" by simp
  then have "pickNextMove Next (\<lambda>_. True) p = (Pos_NONE, p)"
    by (simp add: pickNextMove.simps)
  then show ?case using Nil.prems(1) by (simp add: call_ALLMOVES)
next
  case (Cons m rest)
  have lt: "curMove p < length (moves p)"
  proof (rule ccontr)
    assume "\<not> curMove p < length (moves p)"
    then have "drop (curMove p) (moves p) = []" by simp
    with Cons.prems(2) show False by simp
  qed
  have m: "moves p ! curMove p = m" and rest: "rest = drop (Suc (curMove p)) (moves p)"
    using Cons.prems(2) lt by (simp_all add: Cons_nth_drop_Suc [symmetric])
  show ?case
  proof (cases "streamable p m")
    case True
    let ?p1 = "p\<lparr>curScore := Some (score m), curPolicyScore := Some (rawScore m),
                  curMove := Suc (curMove p)\<rparr>"
    have pk: "pickNextMove Next (\<lambda>_. True) p = (pos m, ?p1)"
      using lt True m by (simp add: pickNextMove.simps [of Next _ p] accepts_streamable)
    have sc: "streamable ?p1 = streamable p" by (rule streamable_cong) simp_all
    from Cons.IH [of ?p1] rest Cons.prems(1) obtain p' where
      "calls L M (Suc (length (filter (streamable p) rest))) ?p1
            = Some (map pos (filter (streamable p) rest) @ [Pos_NONE], p')" "moves p' = moves p"
      unfolding sc by auto
    then show ?thesis using True pk Cons.prems(1) by (simp add: call_ALLMOVES)
  next
    case False
    let ?p2 = "p\<lparr>curMove := Suc (curMove p)\<rparr>"
    have pk: "pickNextMove Next (\<lambda>_. True) p = pickNextMove Next (\<lambda>_. True) ?p2"
      using lt False m by (simp add: pickNextMove.simps [of Next _ p] accepts_streamable)
    have c: "MovePicker_call L M p = MovePicker_call L M ?p2"
      using pk Cons.prems(1) by (simp add: call_ALLMOVES)
    have sc: "streamable ?p2 = streamable p" by (rule streamable_cong) simp_all
    from Cons.IH [of ?p2] rest Cons.prems(1) obtain p' where
      "calls L M (Suc (length (filter (streamable p) rest))) ?p2
            = Some (map pos (filter (streamable p) rest) @ [Pos_NONE], p')" "moves p' = moves p"
      unfolding sc by auto
    then show ?thesis using False calls_Suc_cong [OF c] by simp
  qed
qed

section \<open>Properties of the constructors\<close>

lemma ROOT_fields:
  "MovePicker_ROOT M rl b = Some p \<Longrightarrow>
     stage p = ALLMOVES \<and> board p = b \<and> rule p = rl \<and> ttMove p = Pos_NONE
     \<and> curMove p = 0 \<and> length (moves p) \<le> M"
  by (auto simp: MovePicker_ROOT_def Let_def fill_buffer_def split: option.splits if_splits)

lemma dispatch_MAIN_cases:
  assumes "dispatch_MAIN rl b tt = Some (s, v)"
  shows "(s = DEFENDFIVE_TT \<and> p4Count b (opposite (sideToMove b)) A_FIVE \<noteq> 0)
       \<or> (s = DEFENDFOUR_TT \<and> p4Count b (opposite (sideToMove b)) A_FIVE = 0
           \<and> p4Count b (opposite (sideToMove b)) B_FLEX4 \<noteq> 0)
       \<or> (s = DEFENDB4F3_TT \<and> p4Count b (opposite (sideToMove b)) A_FIVE = 0
           \<and> p4Count b (opposite (sideToMove b)) B_FLEX4 = 0
           \<and> p4Count b (opposite (sideToMove b)) C_BLOCK4_FLEX3 \<noteq> 0 \<and> v)
       \<or> (s = MAIN_TT \<and> p4Count b (opposite (sideToMove b)) A_FIVE = 0
           \<and> p4Count b (opposite (sideToMove b)) B_FLEX4 = 0 \<and> v)"
  using assms by (auto simp: dispatch_MAIN_def Let_def split: if_splits option.splits)

lemma dispatch_QVCF_cases:
  assumes "dispatch_QVCF b tt = Some (s, v)"
  shows "(s = DEFENDFIVE_TT \<and> p4Count b (opposite (sideToMove b)) A_FIVE \<noteq> 0)
       \<or> (s = QVCF_TT \<and> p4Count b (opposite (sideToMove b)) A_FIVE = 0)"
  using assms by (auto simp: dispatch_QVCF_def Let_def split: if_splits option.splits)

lemma MAIN_fields:
  assumes "MovePicker_MAIN rl b a = Some p"
  shows "\<exists>s v. dispatch_MAIN rl b (main_ttMove a) = Some (s, v)
     \<and> board p = b \<and> rule p = rl \<and> mainHistory p = main_mainHistory a
     \<and> main_mainHistory a \<noteq> None
     \<and> counterMoveHistory p = main_counterMoveHistory a
     \<and> continuationHistory p = main_continuationHistory a
     \<and> stage p = s + (if v \<and> isEmpty b (main_ttMove a) then 0 else 1)
     \<and> ttMove p = (if v \<and> isEmpty b (main_ttMove a) then main_ttMove a else Pos_NONE)
     \<and> curScore p = None \<and> curPolicyScore p = None"
proof -
  have h: "main_mainHistory a \<noteq> None"
    using assms by (cases "main_mainHistory a") (simp_all add: MovePicker_MAIN_def)
  obtain s v where d: "dispatch_MAIN rl b (main_ttMove a) = Some (s, v)"
    using assms h by (cases "dispatch_MAIN rl b (main_ttMove a)") (auto simp: MovePicker_MAIN_def)
  have "Some p = Some \<lparr>board = b, mainHistory = main_mainHistory a,
                    counterMoveHistory = main_counterMoveHistory a,
                    continuationHistory = main_continuationHistory a,
                    stage = s + (if v \<and> isEmpty b (main_ttMove a) then 0 else 1), rule = rl,
                    ttMove = (if v \<and> isEmpty b (main_ttMove a) then main_ttMove a else Pos_NONE),
                    allowPlainB4InVCF = False, hasPolicy = False,
                    curScore = None, curPolicyScore = None, maxPolicyScore = None,
                    moves = [], curMove = 0\<rparr>"
    unfolding assms [symmetric] using h d by (simp add: MovePicker_MAIN_def Let_def)
  then have "p = \<lparr>board = b, mainHistory = main_mainHistory a,
                    counterMoveHistory = main_counterMoveHistory a,
                    continuationHistory = main_continuationHistory a,
                    stage = s + (if v \<and> isEmpty b (main_ttMove a) then 0 else 1), rule = rl,
                    ttMove = (if v \<and> isEmpty b (main_ttMove a) then main_ttMove a else Pos_NONE),
                    allowPlainB4InVCF = False, hasPolicy = False,
                    curScore = None, curPolicyScore = None, maxPolicyScore = None,
                    moves = [], curMove = 0\<rparr>" by (simp only: option.inject)
  then have "board p = b" "rule p = rl" "mainHistory p = main_mainHistory a"
    "counterMoveHistory p = main_counterMoveHistory a"
    "continuationHistory p = main_continuationHistory a"
    "stage p = s + (if v \<and> isEmpty b (main_ttMove a) then 0 else 1)"
    "ttMove p = (if v \<and> isEmpty b (main_ttMove a) then main_ttMove a else Pos_NONE)"
    "curScore p = None" "curPolicyScore p = None"
    by simp_all
  then show ?thesis using h d by blast
qed

lemma QVCF_fields:
  assumes "MovePicker_QVCF D rl b a = Some p"
  shows "\<exists>s v. dispatch_QVCF b (qvcf_ttMove a) = Some (s, v)
     \<and> board p = b \<and> rule p = rl
     \<and> stage p = s + (if v \<and> isEmpty b (qvcf_ttMove a) then 0 else 1)
     \<and> ttMove p = (if v \<and> isEmpty b (qvcf_ttMove a) then qvcf_ttMove a else Pos_NONE)
     \<and> curScore p = None \<and> curPolicyScore p = None"
proof -
  obtain s v where d: "dispatch_QVCF b (qvcf_ttMove a) = Some (s, v)"
    using assms by (cases "dispatch_QVCF b (qvcf_ttMove a)") (auto simp: MovePicker_QVCF_def)
  let ?r = "\<lparr>board = b, mainHistory = None, counterMoveHistory = None,
                    continuationHistory = None,
                    stage = s + (if v \<and> isEmpty b (qvcf_ttMove a) then 0 else 1), rule = rl,
                    ttMove = (if v \<and> isEmpty b (qvcf_ttMove a) then qvcf_ttMove a else Pos_NONE),
                    allowPlainB4InVCF =
                      (depth a \<ge> D
                       \<or> (fst (previousSelfP4 a) \<ge> D_BLOCK4_PLUS
                          \<and> snd (previousSelfP4 a) \<ge> D_BLOCK4_PLUS)),
                    hasPolicy = False,
                    curScore = None, curPolicyScore = None, maxPolicyScore = None,
                    moves = [], curMove = 0\<rparr>"
  have "Some p = Some ?r"
    unfolding assms [symmetric] using d by (simp add: MovePicker_QVCF_def Let_def)
  then have "p = ?r" by (simp only: option.inject)
  then have "board p = b" "rule p = rl"
    "stage p = s + (if v \<and> isEmpty b (qvcf_ttMove a) then 0 else 1)"
    "ttMove p = (if v \<and> isEmpty b (qvcf_ttMove a) then qvcf_ttMove a else Pos_NONE)"
    "curScore p = None" "curPolicyScore p = None"
    by simp_all
  then show ?thesis using d by blast
qed

lemma dispatch_MAIN_TT: "dispatch_MAIN rl b tt = Some (s, v) \<Longrightarrow> is_TT_stage s"
  using dispatch_MAIN_cases [of rl b tt s v] by (auto simp: is_TT_stage_def)

lemma dispatch_QVCF_TT: "dispatch_QVCF b tt = Some (s, v) \<Longrightarrow> is_TT_stage s"
  using dispatch_QVCF_cases [of b tt s v] by (auto simp: is_TT_stage_def)

section \<open>Calls that run without a fault\<close>

lemma scoreMove_ok:
  assumes "cell (board p) (pos m) \<noteq> None" "Type AND BALANCED \<noteq> 0"
    "Type AND MAIN_HISTORY \<noteq> 0 \<longrightarrow> mainHistory p \<noteq> None"
    "Type AND COUNTER_MOVE \<noteq> 0 \<longrightarrow> counterMoveHistory p \<noteq> None"
    "Type AND CONT_HISTORY \<noteq> 0 \<longrightarrow> continuationHistory p \<noteq> None"
  shows "\<exists>m' mx'. scoreMove Type p mx m = Some (m', mx') \<and> pos m' = pos m"
proof -
  from assms(1) obtain c where c: "cell (board p) (pos m) = Some c" by auto
  have "\<exists>m1 mx1. baseScore Type (board p) c mx m = Some (m1, mx1) \<and> pos m1 = pos m"
  proof (cases "Type AND POLICY \<noteq> 0 \<and> evaluator (board p) \<noteq> None")
    case True
    then show ?thesis by (auto simp: baseScore_def Let_def)
  next
    case False
    then show ?thesis using assms(2) by (auto simp: baseScore_def Let_def)
  qed
  then obtain m1 mx1 where b: "baseScore Type (board p) c mx m = Some (m1, mx1)" "pos m1 = pos m"
    by blast
  have "\<exists>m2. addMainHistory Type p c m1 = Some m2 \<and> pos m2 = pos m1"
    using assms(3) by (cases "mainHistory p") (auto simp: addMainHistory_def Let_def)
  then obtain m2 where h: "addMainHistory Type p c m1 = Some m2" "pos m2 = pos m1" by blast
  have "\<exists>m3. addCounterMove Type p c m2 = Some m3 \<and> pos m3 = pos m2"
    using assms(4) by (cases "counterMoveHistory p") (auto simp: addCounterMove_def Let_def)
  then obtain m3 where cm: "addCounterMove Type p c m2 = Some m3" "pos m3 = pos m2" by blast
  have ch: "addContHistory Type p m3 = Some m3"
    using assms(5) by (auto simp: addContHistory_def)
  show ?thesis using c b h cm ch by (simp add: scoreMove_def)
qed

lemma scoreMoves_loop_ok:
  assumes "\<forall>m \<in> set ms. cell (board p) (pos m) \<noteq> None" "Type AND BALANCED \<noteq> 0"
    "Type AND MAIN_HISTORY \<noteq> 0 \<longrightarrow> mainHistory p \<noteq> None"
    "Type AND COUNTER_MOVE \<noteq> 0 \<longrightarrow> counterMoveHistory p \<noteq> None"
    "Type AND CONT_HISTORY \<noteq> 0 \<longrightarrow> continuationHistory p \<noteq> None"
  shows "\<exists>r. scoreMoves_loop Type p mx ms = Some r"
  using assms(1)
proof (induction ms arbitrary: mx)
  case Nil
  then show ?case by simp
next
  case (Cons m ms)
  then have "cell (board p) (pos m) \<noteq> None" by simp
  from scoreMove_ok [OF this assms(2-5), of mx] obtain m' mx' where
    "scoreMove Type p mx m = Some (m', mx')" by blast
  moreover obtain r where "scoreMoves_loop Type p mx' ms = Some r"
    using Cons.IH [of mx'] Cons.prems by auto
  ultimately show ?case by (cases r) simp
qed

lemma score_sort_stream_ok:
  assumes "\<forall>m \<in> set (drop (curMove p) (moves p)). cell (board p) (pos m) \<noteq> None"
    "Type AND BALANCED \<noteq> 0"
    "Type AND MAIN_HISTORY \<noteq> 0 \<longrightarrow> mainHistory p \<noteq> None"
    "Type AND COUNTER_MOVE \<noteq> 0 \<longrightarrow> counterMoveHistory p \<noteq> None"
    "Type AND CONT_HISTORY \<noteq> 0 \<longrightarrow> continuationHistory p \<noteq> None"
  shows "\<exists>r. score_sort_stream L M Type p = Some r"
proof -
  obtain r where "scoreMoves_loop Type p (Score_lowest sdiv 2) (drop (curMove p) (moves p)) = Some r"
    using scoreMoves_loop_ok [OF assms] by blast
  then show ?thesis
    by (cases r) (simp add: score_sort_stream_def scoreMoves_def case_ALLMOVES_def Let_def)
qed

lemma flags_MAIN: 
  "(BALANCED OR POLICY OR MAIN_HISTORY OR COUNTER_MOVE OR CONT_HISTORY) AND BALANCED \<noteq> 0"
  "(BALANCED OR POLICY OR MAIN_HISTORY) AND BALANCED \<noteq> 0"
  "(BALANCED OR POLICY OR MAIN_HISTORY) AND COUNTER_MOVE = 0"
  "(BALANCED OR POLICY OR MAIN_HISTORY) AND CONT_HISTORY = 0"
  "BALANCED AND BALANCED \<noteq> 0" "BALANCED AND MAIN_HISTORY = 0" 
  "BALANCED AND COUNTER_MOVE = 0" "BALANCED AND CONT_HISTORY = 0"
  by (simp_all add: ScoreType_defs)

lemma generation_okD:
  assumes "generation_ok M rl b"
  shows "length (generate b G_WINNING) \<le> M" "length (generate b G_DEFEND_FIVE) \<le> M"
    "length (generate b G_ALL) \<le> M"
    "length (generate b G_DEFEND_FOUR_ALL @ generate b G_VCF) \<le> M"
    "length (generate b G_DEFEND_FOUR @ generate b G_VCF) \<le> M"
    "length (generate b (G_DEFEND_B4F3 rl) @ generate b G_VCF) \<le> M"
    "length (generateNeighbors b G_VCF (getLastActualMoveOfSide b (sideToMove b))) \<le> M"
    "length (generateNeighbors b G_VCF_COMB (getLastActualMoveOfSide b (sideToMove b))) \<le> M"
    "\<forall>m \<in> set (generate b G_ALL). cell b (pos m) \<noteq> None"
    "\<forall>m \<in> set (generate b G_DEFEND_FOUR @ generate b G_VCF). cell b (pos m) \<noteq> None"
    "\<forall>m \<in> set (generate b (G_DEFEND_B4F3 rl) @ generate b G_VCF). cell b (pos m) \<noteq> None"
    "\<forall>m \<in> set (generateNeighbors b G_VCF (getLastActualMoveOfSide b (sideToMove b))).
        cell b (pos m) \<noteq> None"
    "\<forall>m \<in> set (generateNeighbors b G_VCF_COMB (getLastActualMoveOfSide b (sideToMove b))).
        cell b (pos m) \<noteq> None"
  using assms unfolding generation_ok_def by blast+

lemma case_MAIN_MOVES_ok:
  assumes "generation_ok M (rule p) (board p)"
    "p4Count (board p) (opposite (sideToMove (board p))) A_FIVE = 0"
    "p4Count (board p) (opposite (sideToMove (board p))) B_FLEX4 = 0"
    "mainHistory p \<noteq> None" "counterMoveHistory p \<noteq> None" "continuationHistory p \<noteq> None"
  shows "\<exists>r. case_MAIN_MOVES L M p = Some r"
proof -
  let ?q = "p\<lparr>moves := generate (board p) G_ALL, curMove := 0\<rparr>"
  have "\<exists>r. score_sort_stream L M
          (BALANCED OR POLICY OR MAIN_HISTORY OR COUNTER_MOVE OR CONT_HISTORY) ?q = Some r"
    using assms generation_okD(9) [OF assms(1)]
    by (intro score_sort_stream_ok) (simp_all add: flags_MAIN)
  then show ?thesis using assms generation_okD(3) [OF assms(1)]
    by (simp add: case_MAIN_MOVES_def Let_def fill_buffer_def)
qed

lemma case_DEFENDFIVE_MOVES_ok:
  assumes "generation_ok M (rule p) (board p)"
    "p4Count (board p) (opposite (sideToMove (board p))) A_FIVE \<noteq> 0"
  shows "\<exists>r. case_DEFENDFIVE_MOVES M p = Some r"
  using assms generation_okD(2) [OF assms(1)]
  by (simp add: case_DEFENDFIVE_MOVES_def Let_def fill_buffer_def case_ALLMOVES_def)

lemma case_DEFENDFOUR_MOVES_ok:
  assumes "generation_ok M (rule p) (board p)"
    "p4Count (board p) (opposite (sideToMove (board p))) B_FLEX4 \<noteq> 0"
    "mainHistory p \<noteq> None"
  shows "\<exists>r. case_DEFENDFOUR_MOVES L M p = Some r"
proof -
  let ?q = "p\<lparr>moves := generate (board p) G_DEFEND_FOUR @ generate (board p) G_VCF, curMove := 0\<rparr>"
  have "\<exists>r. score_sort_stream L M (BALANCED OR POLICY OR MAIN_HISTORY) ?q = Some r"
    using assms generation_okD(10) [OF assms(1)]
    by (intro score_sort_stream_ok) (simp_all add: flags_MAIN)
  then show ?thesis using assms generation_okD(5) [OF assms(1)]
    by (simp add: case_DEFENDFOUR_MOVES_def Let_def fill_buffer_def)
qed

lemma case_DEFENDB4F3_MOVES_ok:
  assumes "generation_ok M (rule p) (board p)"
    "p4Count (board p) (opposite (sideToMove (board p))) C_BLOCK4_FLEX3 \<noteq> 0"
    "p4Count (board p) (opposite (sideToMove (board p))) A_FIVE = 0"
    "p4Count (board p) (opposite (sideToMove (board p))) B_FLEX4 = 0"
    "mainHistory p \<noteq> None" "counterMoveHistory p \<noteq> None" "continuationHistory p \<noteq> None"
  shows "\<exists>r. case_DEFENDB4F3_MOVES L M p = Some r"
proof (cases "generate (board p) (G_DEFEND_B4F3 (rule p)) = []")
  case True
  have "\<exists>r. case_MAIN_MOVES L M (p\<lparr>moves := [], curMove := 0, stage := MAIN_MOVES\<rparr>) = Some r"
    using assms by (intro case_MAIN_MOVES_ok) simp_all
  then show ?thesis using True assms(2) by (simp add: case_DEFENDB4F3_MOVES_def Let_def)
next
  case False
  let ?q = "p\<lparr>moves := generate (board p) (G_DEFEND_B4F3 (rule p)) @ generate (board p) G_VCF,
               curMove := 0\<rparr>"
  have "\<exists>r. score_sort_stream L M (BALANCED OR POLICY OR MAIN_HISTORY) ?q = Some r"
    using assms generation_okD(11) [OF assms(1)]
    by (intro score_sort_stream_ok) (simp_all add: flags_MAIN)
  then show ?thesis using False assms generation_okD(6) [OF assms(1)]
    by (simp add: case_DEFENDB4F3_MOVES_def Let_def fill_buffer_def)
qed

lemma case_QVCF_MOVES_ok:
  assumes "generation_ok M (rule p) (board p)"
  shows "\<exists>r. case_QVCF_MOVES L M p = Some r"
proof -
  let ?g = "generateNeighbors (board p) (if allowPlainB4InVCF p then G_VCF else G_VCF_COMB)
              (getLastActualMoveOfSide (board p) (sideToMove (board p)))"
  have fit: "length ?g \<le> M" and cells: "\<forall>m \<in> set ?g. cell (board p) (pos m) \<noteq> None"
    using generation_okD(7,8,12,13) [OF assms] by auto
  have "\<exists>r. score_sort_stream L M BALANCED (p\<lparr>moves := ?g, curMove := 0\<rparr>) = Some r"
    using cells by (intro score_sort_stream_ok) (simp_all add: ScoreType_defs)
  then show ?thesis using fit
    by (simp add: case_QVCF_MOVES_def Let_def fill_buffer_def)
qed

lemma stage_cases:
  "s \<le> ALLMOVES \<Longrightarrow>
     is_TT_stage s \<or> s = MAIN_MOVES \<or> s = DEFENDFIVE_MOVES \<or> s = DEFENDFOUR_MOVES
     \<or> s = DEFENDB4F3_MOVES \<or> s = QVCF_MOVES \<or> s = ALLMOVES"
  unfolding is_TT_stage_def stage_defs by arith

lemma ready_ALLMOVES: "ready M p \<Longrightarrow> stage p = ALLMOVES \<Longrightarrow> length (moves p) \<le> M"
  by (simp add: ready_def Let_def)

lemma call_ok: "ready M p \<Longrightarrow> \<exists>r. MovePicker_call L M p = Some r"
proof -
  assume r: "ready M p"
  then have g: "generation_ok M (rule p) (board p)" by (simp add: ready_def)
  have "stage p \<le> ALLMOVES" using r by (simp add: ready_def Let_def)
  then consider "is_TT_stage (stage p)" | "stage p = MAIN_MOVES" | "stage p = DEFENDFIVE_MOVES"
    | "stage p = DEFENDFOUR_MOVES" | "stage p = DEFENDB4F3_MOVES" | "stage p = QVCF_MOVES"
    | "stage p = ALLMOVES"
    using stage_cases by blast
  then show ?thesis
  proof cases
    case 1
    then show ?thesis by (simp add: MovePicker_call_def)
  next
    case 2
    then show ?thesis using r case_MAIN_MOVES_ok [OF g, of L]
      by (simp add: MovePicker_call_def ready_def Let_def is_TT_stage_def stage_defs)
  next
    case 3
    then show ?thesis using r case_DEFENDFIVE_MOVES_ok [OF g]
      by (simp add: MovePicker_call_def ready_def Let_def is_TT_stage_def stage_defs)
  next
    case 4
    then show ?thesis using r case_DEFENDFOUR_MOVES_ok [OF g, of L]
      by (simp add: MovePicker_call_def ready_def Let_def is_TT_stage_def stage_defs)
  next
    case 5
    then show ?thesis using r case_DEFENDB4F3_MOVES_ok [OF g, of L]
      by (simp add: MovePicker_call_def ready_def Let_def is_TT_stage_def stage_defs)
  next
    case 6
    then show ?thesis using case_QVCF_MOVES_ok [OF g, of L]
      by (simp add: MovePicker_call_def is_TT_stage_def stage_defs)
  next
    case 7
    then show ?thesis by (simp add: call_ALLMOVES)
  qed
qed

text \<open>
Streaming at stage ALLMOVES ends in NONE after at most as many positions as the buffer
  has left.
\<close>
lemma ALLMOVES_exhausts:
  "stage p = ALLMOVES \<Longrightarrow>
     \<exists>n \<le> length (moves p) - curMove p. \<exists>ys p'.
        calls L M (Suc n) p = Some (ys @ [Pos_NONE], p') \<and> length ys = n \<and> Pos_NONE \<notin> set ys"
proof (induction "length (moves p) - curMove p" arbitrary: p rule: less_induct)
  case less
  obtain x p1 where pk: "pickNextMove Next (\<lambda>_. True) p = (x, p1)" by (cases "pickNextMove Next (\<lambda>_. True) p")
  have c: "MovePicker_call L M p = Some (x, p1)"
    using less.prems pk by (simp add: call_ALLMOVES)
  show ?case
  proof (cases "x = Pos_NONE")
    case True
    then show ?thesis using c by (intro exI [of _ 0]) simp
  next
    case False
    from pickNextMove_props [OF pk] False have
      st: "stage p1 = ALLMOVES" and len: "length (moves p1) = length (moves p)"
      and cur: "curMove p < curMove p1" "curMove p1 \<le> length (moves p1)"
      using less.prems by auto
    have "length (moves p1) - curMove p1 < length (moves p) - curMove p"
      using len cur by linarith
    from less.hyps [OF this st] obtain n ys p' where
      n: "n \<le> length (moves p1) - curMove p1"
      and r: "calls L M (Suc n) p1 = Some (ys @ [Pos_NONE], p')" "length ys = n" "Pos_NONE \<notin> set ys"
      by blast
    have "calls L M (Suc (Suc n)) p = Some ((x # ys) @ [Pos_NONE], p')"
      using c r(1) by simp
    moreover have "Suc n \<le> length (moves p) - curMove p" using n len cur by linarith
    ultimately show ?thesis using r(2,3) False
      by (intro exI [of _ "Suc n"] conjI exI [of _ "x # ys"] exI [of _ p']) auto
  qed
qed

text \<open>
From a generation stage: at most \<open>MAX_MOVES\<close> positions, then NONE.
\<close>
lemma buffer_exhausts:
  assumes ok: "stdlib_ok L" and rd: "ready M p" and nt: "\<not> is_TT_stage (stage p)"
  shows "\<exists>n \<le> M. \<exists>ys p'.
        calls L M (Suc n) p = Some (ys @ [Pos_NONE], p') \<and> length ys = n \<and> Pos_NONE \<notin> set ys"
proof -
  from call_ok [OF rd] obtain r where r: "MovePicker_call L M p = Some r" by blast
  from call_streams [OF nt r] obtain p0 where
    p0: "streams_from p p0" "r = pickNextMove Next (\<lambda>_. True) p0"
      "stage p = ALLMOVES \<longrightarrow> p0 = p"
      "stage p \<noteq> ALLMOVES \<longrightarrow> curMove p0 = 0 \<and> (stdlib_ok L \<longrightarrow> length (moves p0) \<le> M)"
    by blast
  have st: "stage p0 = ALLMOVES" using p0(1) by (simp add: streams_from_def)
  have "MovePicker_call L M p0 = Some r"
    using st p0(2) by (simp add: call_ALLMOVES)
  then have eq: "\<And>n. calls L M (Suc n) p = calls L M (Suc n) p0"
    using r by (intro calls_Suc_cong) simp
  have "length (moves p0) - curMove p0 \<le> M"
  proof (cases "stage p = ALLMOVES")
    case True
    then have "length (moves p0) \<le> M" using p0(3) ready_ALLMOVES [OF rd] by simp
    then show ?thesis by linarith
  next
    case False
    then show ?thesis using p0(4) ok by simp
  qed
  moreover from ALLMOVES_exhausts [OF st, of L M] obtain n ys p' where
    "n \<le> length (moves p0) - curMove p0"
    "calls L M (Suc n) p0 = Some (ys @ [Pos_NONE], p')" "length ys = n" "Pos_NONE \<notin> set ys"
    by blast
  ultimately show ?thesis unfolding eq
    by (intro exI [of _ n] conjI exI [of _ ys] exI [of _ p']) simp_all
qed

lemma ready_after_TT:
  assumes "ready M p" "is_TT_stage (stage p)"
  shows "ready M (p\<lparr>stage := stage p + 1\<rparr>)"
proof -
  consider "stage p = MAIN_TT" | "stage p = DEFENDFIVE_TT" | "stage p = DEFENDFOUR_TT"
    | "stage p = DEFENDB4F3_TT" | "stage p = QVCF_TT"
    using assms(2) unfolding is_TT_stage_def by blast
  then show ?thesis
  proof cases
    case 1 then show ?thesis using assms(1) by (simp add: ready_def Let_def stage_defs)
  next
    case 2 then show ?thesis using assms(1) by (simp add: ready_def Let_def stage_defs)
  next
    case 3 then show ?thesis using assms(1) by (simp add: ready_def Let_def stage_defs)
  next
    case 4 then show ?thesis using assms(1) by (simp add: ready_def Let_def stage_defs)
  next
    case 5 then show ?thesis using assms(1) by (simp add: ready_def Let_def stage_defs)
  qed
qed

lemma ready_exhausts:
  assumes ok: "stdlib_ok L" and rd: "ready M p"
  shows "exhausts_within L M (M + 1) p"
proof (cases "is_TT_stage (stage p)")
  case False
  from buffer_exhausts [OF ok rd False] obtain n ys p' where
    "n \<le> M" "calls L M (Suc n) p = Some (ys @ [Pos_NONE], p')" "Pos_NONE \<notin> set ys" by blast
  then show ?thesis
    unfolding exhausts_within_def by (intro exI [of _ n]) simp
next
  case True
  let ?p1 = "p\<lparr>stage := stage p + 1\<rparr>"
  have c: "MovePicker_call L M p = Some (ttMove p, ?p1)" using True by (rule call_TT)
  show ?thesis
  proof (cases "ttMove p = Pos_NONE")
    case tt: True
    then show ?thesis using c unfolding exhausts_within_def by (intro exI [of _ 0]) simp
  next
    case tt: False
    have nt: "\<not> is_TT_stage (stage ?p1)" using not_TT_succ [OF True] by simp
    have rd1: "ready M ?p1" using rd True by (rule ready_after_TT)
    from buffer_exhausts [OF ok rd1 nt] obtain n ys p' where
      n: "n \<le> M" "calls L M (Suc n) ?p1 = Some (ys @ [Pos_NONE], p')" "Pos_NONE \<notin> set ys"
      by blast
    have "calls L M (Suc (Suc n)) p = Some ((ttMove p # ys) @ [Pos_NONE], p')"
      using c n(2) by simp
    then show ?thesis using n(1,3) tt
      unfolding exhausts_within_def by (intro exI [of _ "Suc n"]) simp
  qed
qed

lemma ROOT_ready:
  "MovePicker_ROOT M rl b = Some p \<Longrightarrow> generation_ok M rl b \<Longrightarrow> ready M p"
  by (drule ROOT_fields) (simp add: ready_def Let_def stage_defs)

lemma stage_succ:
  "MAIN_TT + 1 = MAIN_MOVES" "DEFENDFIVE_TT + 1 = DEFENDFIVE_MOVES"
  "DEFENDFOUR_TT + 1 = DEFENDFOUR_MOVES" "DEFENDB4F3_TT + 1 = DEFENDB4F3_MOVES"
  "QVCF_TT + 1 = QVCF_MOVES"
  by (simp_all add: stage_defs)

lemma readyI_MAIN:
  assumes "generation_ok M (rule p) (board p)" "stage p = MAIN_TT \<or> stage p = MAIN_MOVES"
    "p4Count (board p) (opposite (sideToMove (board p))) A_FIVE = 0"
    "p4Count (board p) (opposite (sideToMove (board p))) B_FLEX4 = 0"
    "mainHistory p \<noteq> None" "counterMoveHistory p \<noteq> None" "continuationHistory p \<noteq> None"
  shows "ready M p"
  using assms(2)
proof
  assume "stage p = MAIN_TT"
  then show ?thesis using assms(1,3-) by (simp add: ready_def Let_def stage_defs)
next
  assume "stage p = MAIN_MOVES"
  then show ?thesis using assms(1,3-) by (simp add: ready_def Let_def stage_defs)
qed

lemma readyI_DEFENDFIVE:
  assumes "generation_ok M (rule p) (board p)"
    "stage p = DEFENDFIVE_TT \<or> stage p = DEFENDFIVE_MOVES"
    "p4Count (board p) (opposite (sideToMove (board p))) A_FIVE \<noteq> 0"
  shows "ready M p"
  using assms(2)
proof
  assume "stage p = DEFENDFIVE_TT"
  then show ?thesis using assms(1,3-) by (simp add: ready_def Let_def stage_defs)
next
  assume "stage p = DEFENDFIVE_MOVES"
  then show ?thesis using assms(1,3-) by (simp add: ready_def Let_def stage_defs)
qed

lemma readyI_DEFENDFOUR:
  assumes "generation_ok M (rule p) (board p)"
    "stage p = DEFENDFOUR_TT \<or> stage p = DEFENDFOUR_MOVES"
    "p4Count (board p) (opposite (sideToMove (board p))) B_FLEX4 \<noteq> 0" "mainHistory p \<noteq> None"
  shows "ready M p"
  using assms(2)
proof
  assume "stage p = DEFENDFOUR_TT"
  then show ?thesis using assms(1,3-) by (simp add: ready_def Let_def stage_defs)
next
  assume "stage p = DEFENDFOUR_MOVES"
  then show ?thesis using assms(1,3-) by (simp add: ready_def Let_def stage_defs)
qed

lemma readyI_DEFENDB4F3:
  assumes "generation_ok M (rule p) (board p)"
    "stage p = DEFENDB4F3_TT \<or> stage p = DEFENDB4F3_MOVES"
    "p4Count (board p) (opposite (sideToMove (board p))) C_BLOCK4_FLEX3 \<noteq> 0"
    "p4Count (board p) (opposite (sideToMove (board p))) A_FIVE = 0"
    "p4Count (board p) (opposite (sideToMove (board p))) B_FLEX4 = 0"
    "mainHistory p \<noteq> None" "counterMoveHistory p \<noteq> None" "continuationHistory p \<noteq> None"
  shows "ready M p"
  using assms(2)
proof
  assume "stage p = DEFENDB4F3_TT"
  then show ?thesis using assms(1,3-) by (simp add: ready_def Let_def stage_defs)
next
  assume "stage p = DEFENDB4F3_MOVES"
  then show ?thesis using assms(1,3-) by (simp add: ready_def Let_def stage_defs)
qed

lemma readyI_QVCF:
  assumes "generation_ok M (rule p) (board p)" "stage p = QVCF_TT \<or> stage p = QVCF_MOVES"
  shows "ready M p"
  using assms(2)
proof
  assume "stage p = QVCF_TT"
  then show ?thesis using assms(1) by (simp add: ready_def Let_def stage_defs)
next
  assume "stage p = QVCF_MOVES"
  then show ?thesis using assms(1) by (simp add: ready_def Let_def stage_defs)
qed

lemma MAIN_ready:
  assumes c: "MovePicker_MAIN rl b a = Some p" and g: "generation_ok M rl b"
    and h: "main_counterMoveHistory a \<noteq> None" "main_continuationHistory a \<noteq> None"
  shows "ready M p"
proof -
  from MAIN_fields [OF c] obtain s v where
    d: "dispatch_MAIN rl b (main_ttMove a) = Some (s, v)"
    and f: "board p = b" "rule p = rl" "mainHistory p \<noteq> None" "counterMoveHistory p \<noteq> None"
      "continuationHistory p \<noteq> None"
    and st: "stage p = s \<or> stage p = s + 1"
    using h by (auto split: if_splits)
  have g': "generation_ok M (rule p) (board p)" using g f by simp
  from dispatch_MAIN_cases [OF d] show ?thesis
  proof (elim disjE conjE)
    assume "s = DEFENDFIVE_TT" "p4Count b (opposite (sideToMove b)) A_FIVE \<noteq> 0"
    then show ?thesis using st f(1) stage_succ by (intro readyI_DEFENDFIVE [OF g']) auto
  next
    assume "s = DEFENDFOUR_TT" "p4Count b (opposite (sideToMove b)) B_FLEX4 \<noteq> 0"
    then show ?thesis using st f(1,3) stage_succ by (intro readyI_DEFENDFOUR [OF g']) auto
  next
    assume "s = DEFENDB4F3_TT" "p4Count b (opposite (sideToMove b)) A_FIVE = 0"
      "p4Count b (opposite (sideToMove b)) B_FLEX4 = 0"
      "p4Count b (opposite (sideToMove b)) C_BLOCK4_FLEX3 \<noteq> 0"
    then show ?thesis using st f stage_succ by (intro readyI_DEFENDB4F3 [OF g']) auto
  next
    assume "s = MAIN_TT" "p4Count b (opposite (sideToMove b)) A_FIVE = 0"
      "p4Count b (opposite (sideToMove b)) B_FLEX4 = 0"
    then show ?thesis using st f stage_succ by (intro readyI_MAIN [OF g']) auto
  qed
qed

lemma QVCF_ready:
  assumes c: "MovePicker_QVCF D rl b a = Some p" and g: "generation_ok M rl b"
  shows "ready M p"
proof -
  from QVCF_fields [OF c] obtain s v where
    d: "dispatch_QVCF b (qvcf_ttMove a) = Some (s, v)"
    and f: "board p = b" "rule p = rl"
    and st: "stage p = s \<or> stage p = s + 1"
    by (auto split: if_splits)
  have g': "generation_ok M (rule p) (board p)" using g f by simp
  from dispatch_QVCF_cases [OF d] show ?thesis
  proof (elim disjE conjE)
    assume "s = DEFENDFIVE_TT" "p4Count b (opposite (sideToMove b)) A_FIVE \<noteq> 0"
    then show ?thesis using st f(1) stage_succ by (intro readyI_DEFENDFIVE [OF g']) auto
  next
    assume "s = QVCF_TT" "p4Count b (opposite (sideToMove b)) A_FIVE = 0"
    then show ?thesis using st stage_succ by (intro readyI_QVCF [OF g']) auto
  qed
qed

section \<open>Properties of the scorer\<close>

lemma and_or_nat: "((a::nat) OR b) AND c = (a AND c) OR (b AND c)"
  by (rule bit_eqI) (auto simp: bit_and_iff bit_or_iff)

lemma and_or_absorb: "(b::nat) AND c = 0 \<Longrightarrow> (a OR b) AND c = a AND c"
  by (simp add: and_or_nat)

lemma other_flags:
  "(T OR MAIN_HISTORY) AND POLICY = T AND POLICY"
  "(T OR MAIN_HISTORY) AND BALANCED = T AND BALANCED"
  "(T OR MAIN_HISTORY) AND ATTACK = T AND ATTACK"
  "(T OR MAIN_HISTORY) AND DEFEND = T AND DEFEND"
  "(T OR MAIN_HISTORY) AND COUNTER_MOVE = T AND COUNTER_MOVE"
  "(T OR MAIN_HISTORY) AND CONT_HISTORY = T AND CONT_HISTORY"
  unfolding ScoreType_defs by (rule and_or_absorb; simp)+

lemma own_flag: "(T OR MAIN_HISTORY) AND MAIN_HISTORY \<noteq> 0"
proof -
  have "(T AND 8) OR 8 \<noteq> (0::nat)" by (simp add: or_eq_0_iff)
  then show ?thesis by (simp add: and_or_nat MAIN_HISTORY_def)
qed

lemma baseScore_flag:
  "baseScore (T OR MAIN_HISTORY) b c mx m = baseScore T b c mx m"
  unfolding baseScore_def other_flags by (rule refl)

lemma addCounterMove_flag:
  "addCounterMove (T OR MAIN_HISTORY) p c m = addCounterMove T p c m"
  unfolding addCounterMove_def other_flags by (rule refl)

lemma addContHistory_flag:
  "addContHistory (T OR MAIN_HISTORY) p m = addContHistory T p m"
  unfolding addContHistory_def other_flags by (rule refl)

lemma addCounterMove_shift:
  "addCounterMove T p c m = Some m' \<Longrightarrow>
     addCounterMove T p c (m\<lparr>score := score m + d\<rparr>) = Some (m'\<lparr>score := score m' + d\<rparr>)"
  by (auto simp: addCounterMove_def Let_def split: if_splits option.splits)

lemma addCounterMove_keeps:
  "addCounterMove T p c m = Some m' \<Longrightarrow> pos m' = pos m \<and> rawScore m' = rawScore m"
  by (auto simp: addCounterMove_def Let_def split: if_splits option.splits)

lemma addContHistory_id: "addContHistory T p m = Some m' \<Longrightarrow> m' = m"
  by (auto simp: addContHistory_def split: if_splits)

lemma baseScore_pos: "baseScore T b c mx m = Some (m1, mx1) \<Longrightarrow> pos m1 = pos m"
  by (auto simp: baseScore_def Let_def split: if_splits option.splits)

text \<open>
One move scored with and without \<open>MAIN_HISTORY\<close>.
\<close>
lemma scoreMove_bonus:
  assumes off: "T AND MAIN_HISTORY = 0" and h: "mainHistory p = Some h"
    and s0: "scoreMove T p mx m = Some (m0, mx0)"
  shows "\<exists>c. cell (board p) (pos m) = Some c
     \<and> scoreMove (T OR MAIN_HISTORY) p mx m
         = Some (m0\<lparr>score := score m0
                       + main_history_bonus h (sideToMove (board p)) c (pos m)\<rparr>, mx0)"
proof -
  from s0 obtain c m1 m2 m3 where
    c: "cell (board p) (pos m) = Some c"
    and b: "baseScore T (board p) c mx m = Some (m1, mx0)"
    and mh: "addMainHistory T p c m1 = Some m2"
    and cm: "addCounterMove T p c m2 = Some m3"
    and ch: "addContHistory T p m3 = Some m0"
    by (auto simp: scoreMove_def split: option.splits prod.splits)
  have m2: "m2 = m1" using mh off by (simp add: addMainHistory_def)
  have m3: "m0 = m3" using addContHistory_id [OF ch] .
  let ?d = "main_history_bonus h (sideToMove (board p)) c (pos m)"
  have mh': "addMainHistory (T OR MAIN_HISTORY) p c m1 = Some (m1\<lparr>score := score m1 + ?d\<rparr>)"
    using h own_flag [of T] baseScore_pos [OF b]
    by (simp add: addMainHistory_def main_history_bonus_def Let_def)
  have cm': "addCounterMove T p c (m1\<lparr>score := score m1 + ?d\<rparr>)
               = Some (m3\<lparr>score := score m3 + ?d\<rparr>)"
    using cm m2 by (simp add: addCounterMove_shift)
  have ch': "addContHistory T p (m3\<lparr>score := score m3 + ?d\<rparr>)
               = Some (m3\<lparr>score := score m3 + ?d\<rparr>)"
    using ch by (auto simp: addContHistory_def split: if_splits)
  show ?thesis
    using c b mh' cm' ch' m3
    by (simp add: scoreMove_def baseScore_flag addCounterMove_flag addContHistory_flag)
qed

lemma scoreMoves_loop_bonus:
  assumes off: "T AND MAIN_HISTORY = 0" and h: "mainHistory p = Some h"
  shows "scoreMoves_loop T p mx ms = Some (ms0, mx0) \<Longrightarrow>
     \<exists>ms1. scoreMoves_loop (T OR MAIN_HISTORY) p mx ms = Some (ms1, mx0)
       \<and> length ms1 = length ms \<and> length ms0 = length ms
       \<and> (\<forall>i < length ms. \<exists>c. cell (board p) (pos (ms ! i)) = Some c
             \<and> score (ms1 ! i) = score (ms0 ! i)
                 + main_history_bonus h (sideToMove (board p)) c (pos (ms ! i))
             \<and> rawScore (ms1 ! i) = rawScore (ms0 ! i))"
proof (induction ms arbitrary: mx ms0 mx0)
  case Nil
  then show ?case by simp
next
  case (Cons m ms)
  from Cons.prems obtain m0 mxa rest0 where
    s: "scoreMove T p mx m = Some (m0, mxa)"
    and r: "scoreMoves_loop T p mxa ms = Some (rest0, mx0)" and ms0: "ms0 = m0 # rest0"
    by (auto split: option.splits prod.splits)
  from scoreMove_bonus [OF off h s] obtain c where
    c: "cell (board p) (pos m) = Some c"
    and s1: "scoreMove (T OR MAIN_HISTORY) p mx m
         = Some (m0\<lparr>score := score m0
                       + main_history_bonus h (sideToMove (board p)) c (pos m)\<rparr>, mxa)"
    by blast
  from Cons.IH [OF r] obtain rest1 where
    r1: "scoreMoves_loop (T OR MAIN_HISTORY) p mxa ms = Some (rest1, mx0)"
    and len: "length rest1 = length ms" "length rest0 = length ms"
    and el: "\<forall>i < length ms. \<exists>c. cell (board p) (pos (ms ! i)) = Some c
             \<and> score (rest1 ! i) = score (rest0 ! i)
                 + main_history_bonus h (sideToMove (board p)) c (pos (ms ! i))
             \<and> rawScore (rest1 ! i) = rawScore (rest0 ! i)"
    by blast
  let ?m1 = "m0\<lparr>score := score m0 + main_history_bonus h (sideToMove (board p)) c (pos m)\<rparr>"
  have "scoreMoves_loop (T OR MAIN_HISTORY) p mx (m # ms) = Some (?m1 # rest1, mx0)"
    using s1 r1 by simp
  moreover have "\<forall>i < length (m # ms). \<exists>c. cell (board p) (pos ((m # ms) ! i)) = Some c
             \<and> score ((?m1 # rest1) ! i) = score ((m0 # rest0) ! i)
                 + main_history_bonus h (sideToMove (board p)) c (pos ((m # ms) ! i))
             \<and> rawScore ((?m1 # rest1) ! i) = rawScore ((m0 # rest0) ! i)"
  proof (intro allI impI)
    fix i assume "i < length (m # ms)"
    then show "\<exists>c. cell (board p) (pos ((m # ms) ! i)) = Some c
             \<and> score ((?m1 # rest1) ! i) = score ((m0 # rest0) ! i)
                 + main_history_bonus h (sideToMove (board p)) c (pos ((m # ms) ! i))
             \<and> rawScore ((?m1 # rest1) ! i) = rawScore ((m0 # rest0) ! i)"
      using c el by (cases i) auto
  qed
  ultimately show ?case using len ms0 by (intro exI [of _ "?m1 # rest1"]) simp
qed

text \<open>
On non-negative values truncating division by a power of two is the right shift.
\<close>
lemma sdiv_nonneg_is_shift: "0 \<le> (x::int) \<Longrightarrow> x sdiv 2 ^ n = drop_bit n x"
  by (simp add: signed_divide_int_def drop_bit_eq_div sgn_if)

text \<open>
Whenever one of the bits \<open>ATTACK\<close> and \<open>DEFEND\<close> is set and no policy is evaluated, the
  base score is \<open>c.score[self]\<close>: \<open>bool(Type & BALANCED)\<close> is tested first.
\<close>
lemma baseScore_any_of_ATTACK_DEFEND:
  "Type AND BALANCED \<noteq> 0 \<Longrightarrow> Type AND POLICY = 0 \<or> evaluator b = None \<Longrightarrow>
     baseScore Type b c mx m
       = Some (m\<lparr>score := cell_score c (sideToMove b), rawScore := cell_score c (sideToMove b)\<rparr>, mx)"
  by (auto simp: baseScore_def Let_def)

section \<open>Where the yielded positions come from\<close>

text \<open>Streaming leaves the buffer as it is, scoring leaves the positions as they are and
  sorting permutes: behind a generation stage the buffer holds the generated squares.\<close>
lemma pickNextMove_Next_moves:
  "pickNextMove Next pred p = (x, p') \<Longrightarrow> moves p' = moves p"
proof (induction "Next" pred p arbitrary: x p' rule: pickNextMove.induct)
  case (1 pred p)
  show ?case
  proof (cases "curMove p < length (moves p)")
    case False
    then show ?thesis using "1.prems" by (simp add: pickNextMove.simps)
  next
    case True
    show ?thesis
    proof (cases "accepts pred (select_move Next p)")
      case acc: True
      then show ?thesis using True "1.prems"
        by (auto simp: pickNextMove.simps [of Next pred p])
    next
      case rej: False
      have eq: "pickNextMove Next pred ((select_move Next p)\<lparr>curMove := Suc (curMove p)\<rparr>) = (x, p')"
        using True rej "1.prems" by (simp add: pickNextMove.simps [of Next pred p])
      from "1.hyps" [OF True rej eq] show ?thesis by simp
    qed
  qed
qed

lemma addMainHistory_pos: "addMainHistory T p c m = Some m' \<Longrightarrow> pos m' = pos m"
  by (auto simp: addMainHistory_def Let_def split: if_splits option.splits)

lemma addCounterMove_pos: "addCounterMove T p c m = Some m' \<Longrightarrow> pos m' = pos m"
  by (auto simp: addCounterMove_def Let_def split: if_splits option.splits)

lemma scoreMove_pos: "scoreMove T p mx m = Some (m', mx') \<Longrightarrow> pos m' = pos m"
  unfolding scoreMove_def
  by (auto split: option.splits prod.splits
      dest!: baseScore_pos addMainHistory_pos addCounterMove_pos addContHistory_id)

lemma scoreMoves_loop_pos:
  "scoreMoves_loop T p mx ms = Some (ms', mx') \<Longrightarrow> map pos ms' = map pos ms"
  by (induction ms arbitrary: mx ms' mx')
     (auto split: option.splits prod.splits dest: scoreMove_pos)

lemma scoreMoves_pos:
  "scoreMoves T p = Some p1 \<Longrightarrow> curMove p = 0 \<Longrightarrow> map pos (moves p1) = map pos (moves p)"
  by (auto simp: scoreMoves_def Let_def split: option.splits prod.splits
      dest!: scoreMoves_loop_pos)

lemma score_sort_stream_buffer:
  assumes "stdlib_ok L" "curMove p = 0" "score_sort_stream L M T p = Some (x, p')"
  shows "pos ` set (moves p') = pos ` set (moves p)"
proof -
  from assms(3) obtain p1 where p1: "scoreMoves T p = Some p1"
    and r: "(x, p') = pickNextMove Next (\<lambda>_. True)
                 (p1\<lparr>moves := take (curMove p1) (moves p1)
                          @ fastPartialSort L M (drop (curMove p1) (moves p1)) 0,
                     stage := ALLMOVES\<rparr>)"
    by (auto simp: score_sort_stream_def case_ALLMOVES_def split: option.splits)
  have c1: "curMove p1 = 0" using scoreMoves_fields [OF p1] assms(2) by simp
  from pickNextMove_Next_moves [OF r [symmetric]] c1
  have "moves p' = fastPartialSort L M (moves p1) 0" by simp
  then have "set (moves p') = set (moves p1)"
    using mset_fastPartialSort [OF assms(1), of M "moves p1" 0] by (metis set_mset_mset)
  then have "pos ` set (moves p') = set (map pos (moves p1))" by simp
  also have "\<dots> = set (map pos (moves p))" using scoreMoves_pos [OF p1 assms(2)] by simp
  finally show ?thesis by simp
qed

lemma makes_four_defends_four: "makes_four b q \<Longrightarrow> defends_four b q"
  by (cases "sideToMove b") (auto simp: makes_four_def defends_four_def split: option.splits)

lemma case_MAIN_MOVES_buffer:
  assumes "stdlib_ok L" "case_MAIN_MOVES L M p = Some (x, p')"
  shows "pos ` set (moves p') = pos ` set (generate (board p) G_ALL)"
proof -
  let ?p0 = "p\<lparr>moves := generate (board p) G_ALL, curMove := 0\<rparr>"
  from assms(2) have "score_sort_stream L M
      (BALANCED OR POLICY OR MAIN_HISTORY OR COUNTER_MOVE OR CONT_HISTORY) ?p0 = Some (x, p')"
    by (auto simp: case_MAIN_MOVES_def Let_def fill_buffer_def split: if_splits option.splits)
  from score_sort_stream_buffer [OF assms(1) _ this] show ?thesis by simp
qed

lemma case_DEFENDFIVE_MOVES_buffer:
  assumes "case_DEFENDFIVE_MOVES M p = Some (x, p')"
  shows "set (moves p') \<subseteq> set (generate (board p) G_DEFEND_FIVE)"
proof -
  let ?ms = "if ttMove p = Pos_NONE then generate (board p) G_DEFEND_FIVE else []"
  from assms have "(x, p') = pickNextMove Next (\<lambda>_. True)
      (p\<lparr>moves := ?ms, curMove := 0, stage := ALLMOVES\<rparr>)"
    by (auto simp: case_DEFENDFIVE_MOVES_def Let_def fill_buffer_def case_ALLMOVES_def
        split: option.splits if_splits)
  from pickNextMove_Next_moves [OF this [symmetric]] show ?thesis by (simp split: if_splits)
qed

lemma case_DEFENDFOUR_MOVES_buffer:
  assumes "stdlib_ok L" "case_DEFENDFOUR_MOVES L M p = Some (x, p')"
  shows "pos ` set (moves p')
       = pos ` set (generate (board p) G_DEFEND_FOUR @ generate (board p) G_VCF)"
proof -
  let ?p0 = "p\<lparr>moves := generate (board p) G_DEFEND_FOUR @ generate (board p) G_VCF,
               curMove := 0\<rparr>"
  from assms(2) have "score_sort_stream L M (BALANCED OR POLICY OR MAIN_HISTORY) ?p0
      = Some (x, p')"
    by (auto simp: case_DEFENDFOUR_MOVES_def Let_def fill_buffer_def
        split: if_splits option.splits)
  from score_sort_stream_buffer [OF assms(1) _ this] show ?thesis by simp
qed

lemma case_DEFENDB4F3_MOVES_buffer:
  assumes "stdlib_ok L" "case_DEFENDB4F3_MOVES L M p = Some (x, p')"
  shows "pos ` set (moves p')
       \<subseteq> pos ` set (generate (board p) G_ALL @ generate (board p) (G_DEFEND_B4F3 (rule p))
                     @ generate (board p) G_VCF)"
proof (cases "generate (board p) (G_DEFEND_B4F3 (rule p)) = []")
  case True
  let ?q = "p\<lparr>moves := [], curMove := 0, stage := MAIN_MOVES\<rparr>"
  from assms(2) True have "case_MAIN_MOVES L M ?q = Some (x, p')"
    by (auto simp: case_DEFENDB4F3_MOVES_def Let_def split: if_splits)
  from case_MAIN_MOVES_buffer [OF assms(1) this] show ?thesis by auto
next
  case False
  let ?p0 = "p\<lparr>moves := generate (board p) (G_DEFEND_B4F3 (rule p)) @ generate (board p) G_VCF,
               curMove := 0\<rparr>"
  from assms(2) False have "score_sort_stream L M (BALANCED OR POLICY OR MAIN_HISTORY) ?p0
      = Some (x, p')"
    by (auto simp: case_DEFENDB4F3_MOVES_def Let_def fill_buffer_def
        split: if_splits option.splits)
  from score_sort_stream_buffer [OF assms(1) _ this] show ?thesis by auto
qed

lemma case_QVCF_MOVES_buffer:
  assumes "stdlib_ok L" "case_QVCF_MOVES L M p = Some (x, p')"
  shows "pos ` set (moves p')
       \<subseteq> pos ` set (generateNeighbors (board p) G_VCF
                        (getLastActualMoveOfSide (board p) (sideToMove (board p)))
                     @ generateNeighbors (board p) G_VCF_COMB
                        (getLastActualMoveOfSide (board p) (sideToMove (board p))))"
proof -
  let ?g = "generateNeighbors (board p) (if allowPlainB4InVCF p then G_VCF else G_VCF_COMB)
              (getLastActualMoveOfSide (board p) (sideToMove (board p)))"
  from assms(2) have "score_sort_stream L M BALANCED (p\<lparr>moves := ?g, curMove := 0\<rparr>)
      = Some (x, p')"
    by (auto simp: case_QVCF_MOVES_def Let_def fill_buffer_def split: if_splits option.splits)
  from score_sort_stream_buffer [OF assms(1) _ this]
  have "pos ` set (moves p') = pos ` set ?g" by simp
  then show ?thesis by (auto split: if_splits)
qed

lemma yield_in_buffer:
  assumes "\<not> is_TT_stage (stage p)" "MovePicker_call L M p = Some (x, p')" "x \<noteq> Pos_NONE"
  shows "x \<in> pos ` set (moves p')"
proof -
  from call_buffer [OF assms(1,2)] assms(3)
  have i: "0 < curMove p'" "curMove p' \<le> length (moves p')"
    and e: "x = pos (moves p' ! (curMove p' - 1))" by auto
  have "moves p' ! (curMove p' - 1) \<in> set (moves p')" using i by (intro nth_mem) linarith
  then show ?thesis using e by blast
qed

lemma first_yield_sound:
  assumes L: "stdlib_ok L" and g: "generation_sound (rule p) (board p)"
    and c: "MovePicker_call L M p = Some (x, p')" and x: "x \<noteq> Pos_NONE"
  shows "(stage p = MAIN_MOVES \<or> stage p = DEFENDB4F3_MOVES \<longrightarrow> isEmpty (board p) x)
       \<and> (stage p = DEFENDFIVE_MOVES \<longrightarrow> isEmpty (board p) x \<and> defends_five (board p) x)
       \<and> (stage p = DEFENDFOUR_MOVES \<longrightarrow> isEmpty (board p) x \<and> defends_four (board p) x)
       \<and> (stage p = QVCF_MOVES \<longrightarrow> isEmpty (board p) x \<and> makes_four (board p) x)"
proof -
  have a: "isEmpty (board p) x" if s: "stage p = MAIN_MOVES \<or> stage p = DEFENDB4F3_MOVES"
  proof -
    from s have nt: "\<not> is_TT_stage (stage p)" by (auto simp: is_TT_stage_def stage_defs)
    from s c have "case_MAIN_MOVES L M p = Some (x, p')
        \<or> case_DEFENDB4F3_MOVES L M p = Some (x, p')"
      by (auto simp: MovePicker_call_def is_TT_stage_def stage_defs)
    then have "pos ` set (moves p') \<subseteq> pos ` set (generate (board p) G_ALL
        @ generate (board p) (G_DEFEND_B4F3 (rule p)) @ generate (board p) G_VCF)"
      using case_MAIN_MOVES_buffer [OF L, of M p x p']
        case_DEFENDB4F3_MOVES_buffer [OF L, of M p x p']
      by auto
    with yield_in_buffer [OF nt c x] g show ?thesis
      by (auto simp: generation_sound_def Let_def)
  qed
  have b: "isEmpty (board p) x \<and> defends_five (board p) x" if s: "stage p = DEFENDFIVE_MOVES"
  proof -
    from s have nt: "\<not> is_TT_stage (stage p)" by (auto simp: is_TT_stage_def stage_defs)
    from s c have "case_DEFENDFIVE_MOVES M p = Some (x, p')"
      by (auto simp: MovePicker_call_def is_TT_stage_def stage_defs)
    from case_DEFENDFIVE_MOVES_buffer [OF this] yield_in_buffer [OF nt c x] g
    show ?thesis by (auto simp: generation_sound_def Let_def)
  qed
  have d: "isEmpty (board p) x \<and> defends_four (board p) x" if s: "stage p = DEFENDFOUR_MOVES"
  proof -
    from s have nt: "\<not> is_TT_stage (stage p)" by (auto simp: is_TT_stage_def stage_defs)
    from s c have "case_DEFENDFOUR_MOVES L M p = Some (x, p')"
      by (auto simp: MovePicker_call_def is_TT_stage_def stage_defs)
    from case_DEFENDFOUR_MOVES_buffer [OF L this] yield_in_buffer [OF nt c x] g
    show ?thesis by (auto simp: generation_sound_def Let_def dest: makes_four_defends_four)
  qed
  have e: "isEmpty (board p) x \<and> makes_four (board p) x" if s: "stage p = QVCF_MOVES"
  proof -
    from s have nt: "\<not> is_TT_stage (stage p)" by (auto simp: is_TT_stage_def stage_defs)
    from s c have "case_QVCF_MOVES L M p = Some (x, p')"
      by (auto simp: MovePicker_call_def is_TT_stage_def stage_defs)
    from case_QVCF_MOVES_buffer [OF L this] yield_in_buffer [OF nt c x] g
    show ?thesis by (auto simp: generation_sound_def Let_def)
  qed
  from a b d e show ?thesis by blast
qed

lemma dispatch_MAIN_valid:
  assumes "dispatch_MAIN rl b tt = Some (s, v)"
  shows "(s = DEFENDFIVE_TT \<longrightarrow> v = defends_five b tt)
       \<and> (s = DEFENDFOUR_TT \<longrightarrow> v = defends_four b tt)
       \<and> (s = DEFENDB4F3_TT \<or> s = MAIN_TT \<longrightarrow> v)"
  using assms
  by (auto simp: dispatch_MAIN_def Let_def defends_five_def defends_four_def stage_defs
      split: if_splits option.splits)

lemma dispatch_QVCF_valid:
  assumes "dispatch_QVCF b tt = Some (s, v)"
  shows "(s = DEFENDFIVE_TT \<longrightarrow> v = defends_five b tt)
       \<and> (s = QVCF_TT \<longrightarrow> v = makes_four b tt)"
  using assms
  by (auto simp: dispatch_QVCF_def Let_def defends_five_def makes_four_def stage_defs
      split: if_splits option.splits)

lemma dispatch_MAIN_defined:
  "cell b tt \<noteq> None \<Longrightarrow> \<exists>s v. dispatch_MAIN rl b tt = Some (s, v)"
  by (auto simp: dispatch_MAIN_def Let_def)

lemma dispatch_QVCF_defined:
  "cell b tt \<noteq> None \<Longrightarrow> \<exists>s v. dispatch_QVCF b tt = Some (s, v)"
  by (auto simp: dispatch_QVCF_def Let_def)

lemma MAIN_defined:
  "dispatch_MAIN rl b (main_ttMove a) = Some (s, v) \<Longrightarrow> main_mainHistory a \<noteq> None \<Longrightarrow>
     \<exists>p. MovePicker_MAIN rl b a = Some p"
  by (simp add: MovePicker_MAIN_def Let_def)

lemma QVCF_defined:
  "dispatch_QVCF b (qvcf_ttMove a) = Some (s, v) \<Longrightarrow> \<exists>p. MovePicker_QVCF D rl b a = Some p"
  by (simp add: MovePicker_QVCF_def Let_def)

text \<open>A rejected TT move is not the first yield, when the generators are sound.\<close>
lemma rejected_not_yielded:
  assumes L: "stdlib_ok L" and g: "generation_sound (rule p) (board p)"
    and c: "MovePicker_call L M p = Some (x, p')" and x: "x \<noteq> Pos_NONE"
    and s: "stage p = s + 1"
    and d: "dispatch_MAIN (rule p) (board p) tt = Some (s, v)
          \<or> dispatch_QVCF (board p) tt = Some (s, v)"
    and r: "\<not> (v \<and> isEmpty (board p) tt)"
  shows "x \<noteq> tt"
proof
  assume e: "x = tt"
  note y = first_yield_sound [OF L g c x]
  from d show False
  proof
    assume dm: "dispatch_MAIN (rule p) (board p) tt = Some (s, v)"
    from dispatch_MAIN_cases [OF dm] dispatch_MAIN_valid [OF dm] y s r e stage_succ
    show False by auto
  next
    assume dq: "dispatch_QVCF (board p) tt = Some (s, v)"
    from dispatch_QVCF_cases [OF dq] dispatch_QVCF_valid [OF dq] y s r e stage_succ
    show False by auto
  qed
qed

lemma TT_outcome:
  assumes tts: "is_TT_stage s" and f: "board p = b" "rule p = rl"
    "stage p = s + (if v \<and> isEmpty b tt then 0 else 1)"
    "ttMove p = (if v \<and> isEmpty b tt then tt else Pos_NONE)"
    and d: "dispatch_MAIN rl b tt = Some (s, v) \<or> dispatch_QVCF b tt = Some (s, v)"
  shows "if v \<and> isEmpty b tt then stage p = s \<and> ttMove p = tt
         else stage p = s + 1 \<and> \<not> is_TT_stage (stage p) \<and> ttMove p = Pos_NONE
           \<and> (\<forall>x p'. MovePicker_call L M p = Some (x, p') \<and> x \<noteq> Pos_NONE \<longrightarrow>
                 x \<in> pos ` set (moves p')
                 \<and> (stdlib_ok L \<and> generation_sound rl b \<longrightarrow> x \<noteq> tt))"
proof (cases "v \<and> isEmpty b tt")
  case True
  then show ?thesis using f by simp
next
  case False
  have s1: "stage p = s + 1" and t1: "ttMove p = Pos_NONE" using False f by auto
  have nt: "\<not> is_TT_stage (stage p)" using s1 not_TT_succ [OF tts] by simp
  have d': "dispatch_MAIN (rule p) (board p) tt = Some (s, v)
          \<or> dispatch_QVCF (board p) tt = Some (s, v)" using d f by simp
  have r: "\<not> (v \<and> isEmpty (board p) tt)" using False f by simp
  have y: "x \<in> pos ` set (moves p') \<and> (stdlib_ok L \<and> generation_sound rl b \<longrightarrow> x \<noteq> tt)"
    if c: "MovePicker_call L M p = Some (x, p')" and x: "x \<noteq> Pos_NONE" for x p'
  proof -
    have "x \<noteq> tt" if L: "stdlib_ok L" and g: "generation_sound rl b"
    proof -
      have g': "generation_sound (rule p) (board p)" using g f by simp
      from rejected_not_yielded [OF L g' c x s1 d' r] show ?thesis .
    qed
    with yield_in_buffer [OF nt c x] show ?thesis by blast
  qed
  have "\<forall>x p'. MovePicker_call L M p = Some (x, p') \<and> x \<noteq> Pos_NONE \<longrightarrow>
          x \<in> pos ` set (moves p') \<and> (stdlib_ok L \<and> generation_sound rl b \<longrightarrow> x \<noteq> tt)"
    using y by blast
  then show ?thesis using False s1 t1 nt by simp
qed

lemma sound_board_sound:
  "generation_sound FREESTYLE (sound_board no_threat)"
  "generation_sound FREESTYLE (sound_board white_five)"
  by code_simp+

section \<open>Statements about the picker\<close>

subsection \<open>Claim C2\<close>

text \<open>
Claim C2 says that under rule RENJU with Black to move no forbidden point for Black is
  ever yielded, at any stage, the TT stage included. The TT case returns the stored
  \<open>ttMove\<close> without a forbidden-point check (line 306), and the main constructor accepts
  a TT move whose \<open>pattern4[BLACK]\<close> is \<open>FORBID\<close> under the open-four dispatch (line
  146). On \<open>renju_board\<close> White threatens an open four and square 7 is empty, forbidden
  for Black and classified \<open>FORBID\<close>; with \<open>ttMove = 7\<close> the picker starts at
  \<open>DEFENDFOUR_TT\<close> and its first call returns 7.
\<close>
theorem forbidden_TT_move_counterexample:
  "sideToMove renju_board = BLACK
   \<and> checkForbiddenPoint renju_board 7
   \<and> map_option (\<lambda>c. pattern4 c BLACK) (cell renju_board 7) = Some FORBID
   \<and> map_option (\<lambda>p. (rule p, stage p)) (MovePicker_MAIN RENJU renju_board (main_args 7))
       = Some (RENJU, DEFENDFOUR_TT)
   \<and> map_option fst (Option.bind (MovePicker_MAIN RENJU renju_board (main_args 7))
       (MovePicker_call ref_stdlib 8)) = Some 7"
  by code_simp

text \<open>
Claim C2, amended: under rule RENJU with Black to move, every position other than NONE that
  a run of calls returns behind the TT stage is not a forbidden point for Black: every
  result of a run that starts at a later stage, and every result but the first of a run
  that starts at a \<open>*_TT\<close> stage. The TT stage itself returns the stored \<open>ttMove\<close>
  unchecked.
\<close>
theorem no_forbidden_point_behind_TT_stage:
  assumes "rule p = RENJU" and "sideToMove (board p) = BLACK"
    and "calls L M n p = Some (xs, p')"
    and "x \<in> set (if is_TT_stage (stage p) then tl xs else xs)" and "x \<noteq> Pos_NONE"
  shows "\<not> checkForbiddenPoint (board p) x"
proof (cases "is_TT_stage (stage p)")
  case False
  then show ?thesis using calls_buffer [OF False assms(3)] assms by auto
next
  case True
  show ?thesis
  proof (cases n)
    case 0
    then show ?thesis using assms(3,4) True by auto
  next
    case (Suc k)
    let ?p1 = "p\<lparr>stage := stage p + 1\<rparr>"
    from assms(3) Suc call_TT [OF True, of L M] obtain ys where
      r: "calls L M k ?p1 = Some (ys, p')" and xs: "xs = ttMove p # ys"
      by (auto split: option.splits prod.splits)
    have nt: "\<not> is_TT_stage (stage ?p1)" using not_TT_succ [OF True] by simp
    from calls_buffer [OF nt r] assms xs True show ?thesis by auto
  qed
qed

theorem no_forbidden_point_behind_TT_stage_witness:
  "\<exists>p xs p'. MovePicker_MAIN RENJU renju_board (main_args 7) = Some p
     \<and> rule p = RENJU \<and> sideToMove (board p) = BLACK \<and> is_TT_stage (stage p)
     \<and> calls ref_stdlib 8 5 p = Some (xs, p') \<and> xs = [7, 3, 4, 0, 0]
     \<and> 3 \<noteq> Pos_NONE \<and> \<not> checkForbiddenPoint (board p) 3
     \<and> checkForbiddenPoint (board p) 7"
proof -
  have ev: "map_option fst (Option.bind (MovePicker_MAIN RENJU renju_board (main_args 7))
       (calls ref_stdlib 8 5)) = Some [7, 3, 4, 0, 0]" by code_simp
  then obtain p where p: "MovePicker_MAIN RENJU renju_board (main_args 7) = Some p"
    by (cases "MovePicker_MAIN RENJU renju_board (main_args 7)") auto
  with ev obtain p' where c: "calls ref_stdlib 8 5 p = Some ([7, 3, 4, 0, 0], p')"
    by (cases "calls ref_stdlib 8 5 p") auto
  have "map_option (\<lambda>p. (rule p, stage p)) (MovePicker_MAIN RENJU renju_board (main_args 7))
      = Some (RENJU, DEFENDFOUR_TT)" by code_simp
  then have f: "rule p = RENJU" "stage p = DEFENDFOUR_TT" using p by auto
  have b: "board p = renju_board" using MAIN_fields [OF p] by blast
  have "sideToMove renju_board = BLACK \<and> checkForbiddenPoint renju_board 7" by code_simp
  then have side: "sideToMove (board p) = BLACK" "checkForbiddenPoint (board p) 7"
    using b by simp_all
  have tt: "is_TT_stage (stage p)" using f by (simp add: is_TT_stage_def)
  have "\<not> checkForbiddenPoint (board p) 3"
    using no_forbidden_point_behind_TT_stage [OF f(1) side(1) c, of 3] tt
    by (simp add: Pos_NONE_def)
  then show ?thesis using p f side tt c
    by (intro exI [of _ p] exI [of _ "[7, 3, 4, 0, 0]"] exI [of _ p']) (simp add: Pos_NONE_def)
qed

subsection \<open>Claim C3\<close>

text \<open>
Claim C3 says that with \<open>ATTACK\<close> set and \<open>DEFEND\<close> not set (and no policy) the scorer
  gives \<open>(2 * c.score[self] + c.score[oppo]) / 3\<close>, with \<open>DEFEND\<close> only
  \<open>(c.score[self] + 2 * c.score[oppo]) / 3\<close>, and with both \<open>c.score[self]\<close>. The code has
  the two weighted branches (lines 256-259), but it tests \<open>bool(Type & BALANCED)\<close> before
  them (line 254), and \<open>BALANCED\<close> is \<open>ATTACK | DEFEND\<close>: the test holds as soon as one of
  the two bits is set, and the weighted branches are never reached. At a cell with
  \<open>score[self] = 3\<close> and \<open>score[oppo] = 9\<close> the scorer gives 3 with \<open>ATTACK\<close> only and
  with \<open>DEFEND\<close> only, where the claim, and the branches written for it, give 5 and 7.
\<close>
theorem scoreMoves_ATTACK_only_evaluation:
  "map_option (\<lambda>p. map (\<lambda>m. (score m, rawScore m)) (moves p))
       (scoreMoves ATTACK (test_picker FREESTYLE quiet_board [mk 3])) = Some [(3, 3)]
   \<and> map_option (\<lambda>p. map (\<lambda>m. (score m, rawScore m)) (moves p))
       (scoreMoves DEFEND (test_picker FREESTYLE quiet_board [mk 3])) = Some [(3, 3)]
   \<and> map_option (\<lambda>c. (cell_score c BLACK, cell_score c WHITE)) (cell quiet_board 3) = Some (3, 9)
   \<and> (3 * 2 + 9) sdiv 3 = (5 :: int) \<and> (3 + 9 * 2) sdiv 3 = (7 :: int)"
  by (simp add: scoreMoves_def scoreMove_def baseScore_def addMainHistory_def
      addCounterMove_def addContHistory_def test_picker_def quiet_board_def test_board_def
      test_cells_def test_cell_def mk_def ScoreType_defs Let_def signed_divide_int_def)

subsection \<open>Claim C4\<close>

text \<open>
Claim C4 says that after every call that returns a position, \<open>curScore\<close> and
  \<open>curPolicyScore\<close> are the score and raw score of the yielded move, the yield of a
  \<open>*_TT\<close> stage included. The TT case is \<open>++stage; return ttMove;\<close>: it assigns neither
  member, and \<open>ttMove\<close> is a position without scores. After the first call of a main
  picker with the valid TT move 4, which returns 4, both members are still unassigned.
\<close>
theorem curScore_at_TT_stage_counterexample:
  "map_option (\<lambda>(x, p'). (x, curScore p', curPolicyScore p'))
      (Option.bind (MovePicker_MAIN FREESTYLE quiet_board (main_args 4))
         (MovePicker_call ref_stdlib 8)) = Some (4, None, None)
   \<and> (4 :: Pos) \<noteq> Pos_NONE"
  by code_simp

text \<open>
Claim C4, amended: a call at a \<open>*_TT\<close> stage returns the stored \<open>ttMove\<close> and leaves
  \<open>curScore\<close> and \<open>curPolicyScore\<close> as they were; after every call at a later stage that
  returns a position, that position is the buffer element just passed by the cursor,
  \<open>curScore\<close> is its \<open>score\<close> and \<open>curPolicyScore\<close> its \<open>rawScore\<close>.
\<close>
theorem curScore_after_yield:
  assumes "MovePicker_call L M p = Some (x, p')"
  shows "if is_TT_stage (stage p)
         then x = ttMove p \<and> curScore p' = curScore p \<and> curPolicyScore p' = curPolicyScore p
         else x \<noteq> Pos_NONE \<longrightarrow>
           0 < curMove p' \<and> curMove p' \<le> length (moves p')
           \<and> pos (moves p' ! (curMove p' - 1)) = x
           \<and> curScore p' = Some (score (moves p' ! (curMove p' - 1)))
           \<and> curPolicyScore p' = Some (rawScore (moves p' ! (curMove p' - 1)))"
proof (cases "is_TT_stage (stage p)")
  case True
  then show ?thesis using assms call_TT [OF True, of L M] by auto
next
  case False
  then show ?thesis using call_buffer [OF False assms] by auto
qed

theorem curScore_after_yield_witness:
  "\<exists>p p1 p2. MovePicker_MAIN FREESTYLE quiet_board (main_args 4) = Some p
     \<and> MovePicker_call ref_stdlib 8 p = Some (4, p1) \<and> \<not> is_TT_stage (stage p1)
     \<and> MovePicker_call ref_stdlib 8 p1 = Some (7, p2) \<and> 7 \<noteq> Pos_NONE
     \<and> map (\<lambda>m. (pos m, score m, rawScore m)) (moves p2) = [(7, 4, 5), (3, 3, 3), (4, 0, 1)]
     \<and> curMove p2 = 1 \<and> curScore p2 = Some 4 \<and> curPolicyScore p2 = Some 5"
proof -
  have ev: "map_option (\<lambda>(xs, p). (xs, curMove p,
        map (\<lambda>m. (pos m, score m, rawScore m)) (moves p)))
      (Option.bind (MovePicker_MAIN FREESTYLE quiet_board (main_args 4)) (calls ref_stdlib 8 2))
      = Some ([4, 7], 1, [(7, 4, 5), (3, 3, 3), (4, 0, 1)])" by code_simp
  then obtain p where p: "MovePicker_MAIN FREESTYLE quiet_board (main_args 4) = Some p"
    by (cases "MovePicker_MAIN FREESTYLE quiet_board (main_args 4)") auto
  with ev obtain p2 where c: "calls ref_stdlib 8 2 p = Some ([4, 7], p2)"
    and m: "curMove p2 = 1"
      "map (\<lambda>m. (pos m, score m, rawScore m)) (moves p2) = [(7, 4, 5), (3, 3, 3), (4, 0, 1)]"
    by (cases "calls ref_stdlib 8 2 p") auto
  from c obtain p1 where c1: "MovePicker_call ref_stdlib 8 p = Some (4, p1)"
    and c2: "MovePicker_call ref_stdlib 8 p1 = Some (7, p2)"
    by (auto simp: numeral_2_eq_2 split: option.splits prod.splits)
  have "map_option stage (MovePicker_MAIN FREESTYLE quiet_board (main_args 4)) = Some MAIN_TT"
    by code_simp
  then have "is_TT_stage (stage p)" using p by (simp add: is_TT_stage_def)
  then have nt: "\<not> is_TT_stage (stage p1)"
    using c1 call_TT [of p ref_stdlib 8] not_TT_succ [of "stage p"] by auto
  have "curScore p2 = Some (score (moves p2 ! (curMove p2 - 1)))
      \<and> curPolicyScore p2 = Some (rawScore (moves p2 ! (curMove p2 - 1)))"
    using curScore_after_yield [OF c2] nt by (simp add: Pos_NONE_def)
  moreover have "score (moves p2 ! 0) = 4" "rawScore (moves p2 ! 0) = 5"
    using m(2) by (cases "moves p2"; simp)+
  ultimately show ?thesis using p c1 c2 nt m
    by (intro exI [of _ p] exI [of _ p1] exI [of _ p2]) (simp add: Pos_NONE_def)
qed

subsection \<open>Claim C5\<close>

text \<open>
Claim C5: for every constructed picker (root, main or quick VCF) repeated calls reach NONE
  after finitely many positions, at most \<open>MAX_MOVES + 1\<close> of them: the TT move and at most
  \<open>MAX_MOVES\<close> buffer moves. The hypotheses are those under which the calls run without
  a fault: a conforming library, generators that stay within the buffer and on squares of
  the cell array, and, for the main picker, the two tables that the scorer of
  \<open>MAIN_MOVES\<close> asserts.
\<close>
theorem picker_exhausts:
  "stdlib_ok L \<Longrightarrow> generation_ok M rl b \<Longrightarrow>
   MovePicker_ROOT M rl b = Some p
   \<or> (MovePicker_MAIN rl b margs = Some p \<and> main_counterMoveHistory margs \<noteq> None
       \<and> main_continuationHistory margs \<noteq> None)
   \<or> MovePicker_QVCF D rl b qargs = Some p \<Longrightarrow>
   exhausts_within L M (M + 1) p"
proof -
  assume ok: "stdlib_ok L" and g: "generation_ok M rl b"
    and c: "MovePicker_ROOT M rl b = Some p
   \<or> (MovePicker_MAIN rl b margs = Some p \<and> main_counterMoveHistory margs \<noteq> None
       \<and> main_continuationHistory margs \<noteq> None)
   \<or> MovePicker_QVCF D rl b qargs = Some p"
  from c have "ready M p"
  proof (elim disjE conjE)
    assume "MovePicker_ROOT M rl b = Some p"
    then show ?thesis using g by (rule ROOT_ready)
  next
    assume "MovePicker_MAIN rl b margs = Some p" "main_counterMoveHistory margs \<noteq> None"
      "main_continuationHistory margs \<noteq> None"
    then show ?thesis using g by (intro MAIN_ready)
  next
    assume "MovePicker_QVCF D rl b qargs = Some p"
    then show ?thesis using g by (rule QVCF_ready)
  qed
  with ok show ?thesis by (rule ready_exhausts)
qed

theorem picker_exhausts_witness:
  "stdlib_ok ref_stdlib \<and> generation_ok 8 FREESTYLE quiet_board
   \<and> main_counterMoveHistory (main_args 4) \<noteq> None
   \<and> main_continuationHistory (main_args 4) \<noteq> None
   \<and> (\<exists>p. MovePicker_MAIN FREESTYLE quiet_board (main_args 4) = Some p
          \<and> exhausts_within ref_stdlib 8 (8 + 1) p)
   \<and> map_option fst (Option.bind (MovePicker_MAIN FREESTYLE quiet_board (main_args 4))
       (calls ref_stdlib 8 4)) = Some [4, 7, 3, Pos_NONE]"
proof -
  have g: "generation_ok 8 FREESTYLE quiet_board" by code_simp
  have h: "main_counterMoveHistory (main_args 4) \<noteq> None"
    "main_continuationHistory (main_args 4) \<noteq> None" by (simp_all add: main_args_def)
  have ev: "map_option fst (Option.bind (MovePicker_MAIN FREESTYLE quiet_board (main_args 4))
       (calls ref_stdlib 8 4)) = Some [4, 7, 3, Pos_NONE]" by code_simp
  then obtain p where p: "MovePicker_MAIN FREESTYLE quiet_board (main_args 4) = Some p"
    by (cases "MovePicker_MAIN FREESTYLE quiet_board (main_args 4)") auto
  have "exhausts_within ref_stdlib 8 (8 + 1) p"
    using picker_exhausts [OF ref_stdlib_ok g, of p "main_args 4"] p h by blast
  then show ?thesis using ref_stdlib_ok g h ev p by blast
qed

subsection \<open>Claim C6\<close>

text \<open>
Claim C6: in the main and the quick-VCF constructor the validity that the dispatch
  computes (\<open>v\<close>, with the TT stage \<open>s\<close>) is conjoined with \<open>isEmpty(ttMove)\<close>. Whenever
  the cell lookup at \<open>ttMove\<close> is inside the array (and the main constructor is given the
  main-history table it asserts), the dispatch gives a stage and a validity and the
  constructor returns a picker. If the conjunction holds, the picker starts at \<open>s\<close> with
  the caller's move stored. If it does not, the stage is \<open>s + 1\<close>, which is not a TT
  stage, and the stored \<open>ttMove\<close> is NONE; the first call then does not take the TT
  branch: a position it returns is the position of a move that the generation stage put
  into the buffer, and it is not the caller's \<open>ttMove\<close> when the library sorts and the
  generators meet their contracts. (The picker compares the buffer elements with the
  stored \<open>ttMove\<close> only, which is NONE here; that a rejected square is not generated is
  the generators' part, \<open>generation_sound\<close>.)
\<close>
theorem invalid_TT_move_skips_TT_stage:
  assumes "cell b tt \<noteq> None"
    and "main_ttMove margs = tt" and "main_mainHistory margs \<noteq> None"
    and "qvcf_ttMove qargs = tt"
  shows "(\<exists>s v p. dispatch_MAIN rl b tt = Some (s, v) \<and> MovePicker_MAIN rl b margs = Some p
            \<and> is_TT_stage s
            \<and> (if v \<and> isEmpty b tt then stage p = s \<and> ttMove p = tt
                else stage p = s + 1 \<and> \<not> is_TT_stage (stage p) \<and> ttMove p = Pos_NONE
                  \<and> (\<forall>x p'. MovePicker_call L M p = Some (x, p') \<and> x \<noteq> Pos_NONE \<longrightarrow>
                        x \<in> pos ` set (moves p')
                        \<and> (stdlib_ok L \<and> generation_sound rl b \<longrightarrow> x \<noteq> tt))))
       \<and> (\<exists>s v p. dispatch_QVCF b tt = Some (s, v) \<and> MovePicker_QVCF D rl b qargs = Some p
            \<and> is_TT_stage s
            \<and> (if v \<and> isEmpty b tt then stage p = s \<and> ttMove p = tt
                else stage p = s + 1 \<and> \<not> is_TT_stage (stage p) \<and> ttMove p = Pos_NONE
                  \<and> (\<forall>x p'. MovePicker_call L M p = Some (x, p') \<and> x \<noteq> Pos_NONE \<longrightarrow>
                        x \<in> pos ` set (moves p')
                        \<and> (stdlib_ok L \<and> generation_sound rl b \<longrightarrow> x \<noteq> tt))))"
proof (rule conjI)
  from dispatch_MAIN_defined [OF assms(1)] obtain s v where
    d: "dispatch_MAIN rl b tt = Some (s, v)" by blast
  from MAIN_defined [of rl b margs s v] d assms(2,3) obtain p where
    c: "MovePicker_MAIN rl b margs = Some p" by auto
  from MAIN_fields [OF c] d assms(2) have f: "board p = b" "rule p = rl"
    "stage p = s + (if v \<and> isEmpty b tt then 0 else 1)"
    "ttMove p = (if v \<and> isEmpty b tt then tt else Pos_NONE)" by auto
  from TT_outcome [OF dispatch_MAIN_TT [OF d] f disjI1 [OF d], of L M] d c
    dispatch_MAIN_TT [OF d]
  show "\<exists>s v p. dispatch_MAIN rl b tt = Some (s, v) \<and> MovePicker_MAIN rl b margs = Some p
            \<and> is_TT_stage s
            \<and> (if v \<and> isEmpty b tt then stage p = s \<and> ttMove p = tt
                else stage p = s + 1 \<and> \<not> is_TT_stage (stage p) \<and> ttMove p = Pos_NONE
                  \<and> (\<forall>x p'. MovePicker_call L M p = Some (x, p') \<and> x \<noteq> Pos_NONE \<longrightarrow>
                        x \<in> pos ` set (moves p')
                        \<and> (stdlib_ok L \<and> generation_sound rl b \<longrightarrow> x \<noteq> tt)))"
    by blast
next
  from dispatch_QVCF_defined [OF assms(1)] obtain s v where
    d: "dispatch_QVCF b tt = Some (s, v)" by blast
  from QVCF_defined [of b qargs s v D rl] d assms(4) obtain p where
    c: "MovePicker_QVCF D rl b qargs = Some p" by auto
  from QVCF_fields [OF c] d assms(4) have f: "board p = b" "rule p = rl"
    "stage p = s + (if v \<and> isEmpty b tt then 0 else 1)"
    "ttMove p = (if v \<and> isEmpty b tt then tt else Pos_NONE)" by auto
  from TT_outcome [OF dispatch_QVCF_TT [OF d] f disjI2 [OF d], of L M] d c
    dispatch_QVCF_TT [OF d]
  show "\<exists>s v p. dispatch_QVCF b tt = Some (s, v) \<and> MovePicker_QVCF D rl b qargs = Some p
            \<and> is_TT_stage s
            \<and> (if v \<and> isEmpty b tt then stage p = s \<and> ttMove p = tt
                else stage p = s + 1 \<and> \<not> is_TT_stage (stage p) \<and> ttMove p = Pos_NONE
                  \<and> (\<forall>x p'. MovePicker_call L M p = Some (x, p') \<and> x \<noteq> Pos_NONE \<longrightarrow>
                        x \<in> pos ` set (moves p')
                        \<and> (stdlib_ok L \<and> generation_sound rl b \<longrightarrow> x \<noteq> tt)))"
    by blast
qed

theorem invalid_TT_move_skips_TT_stage_witness:
  "stdlib_ok ref_stdlib \<and> generation_sound FREESTYLE (sound_board no_threat)
   \<and> generation_sound FREESTYLE (sound_board white_five)
   \<and> (\<exists>p x p'. MovePicker_MAIN FREESTYLE (sound_board no_threat) (main_args 8) = Some p
         \<and> dispatch_MAIN FREESTYLE (sound_board no_threat) 8 = Some (MAIN_TT, True)
         \<and> \<not> isEmpty (sound_board no_threat) 8
         \<and> stage p = MAIN_TT + 1 \<and> \<not> is_TT_stage (stage p) \<and> ttMove p = Pos_NONE
         \<and> MovePicker_call ref_stdlib 8 p = Some (x, p') \<and> x = 6 \<and> x \<noteq> 8)
   \<and> (\<exists>p x p'. MovePicker_QVCF 0 FREESTYLE (sound_board no_threat) (qvcf_args 8) = Some p
         \<and> dispatch_QVCF (sound_board no_threat) 8 = Some (QVCF_TT, True)
         \<and> \<not> isEmpty (sound_board no_threat) 8
         \<and> stage p = QVCF_TT + 1 \<and> \<not> is_TT_stage (stage p) \<and> ttMove p = Pos_NONE
         \<and> MovePicker_call ref_stdlib 8 p = Some (x, p') \<and> x = 6 \<and> x \<noteq> 8)
   \<and> (\<exists>p. MovePicker_MAIN FREESTYLE (sound_board no_threat) (main_args 3) = Some p
         \<and> dispatch_MAIN FREESTYLE (sound_board no_threat) 3 = Some (MAIN_TT, True)
         \<and> isEmpty (sound_board no_threat) 3
         \<and> stage p = MAIN_TT \<and> ttMove p = 3)
   \<and> (\<exists>p x p'. MovePicker_QVCF 0 FREESTYLE (sound_board no_threat) (qvcf_args 3) = Some p
         \<and> dispatch_QVCF (sound_board no_threat) 3 = Some (QVCF_TT, False)
         \<and> isEmpty (sound_board no_threat) 3
         \<and> stage p = QVCF_TT + 1 \<and> \<not> is_TT_stage (stage p) \<and> ttMove p = Pos_NONE
         \<and> MovePicker_call ref_stdlib 8 p = Some (x, p') \<and> x = 6 \<and> x \<noteq> 3)
   \<and> (\<exists>p x p'. MovePicker_MAIN FREESTYLE (sound_board white_five) (main_args 4) = Some p
         \<and> dispatch_MAIN FREESTYLE (sound_board white_five) 4 = Some (DEFENDFIVE_TT, False)
         \<and> isEmpty (sound_board white_five) 4
         \<and> stage p = DEFENDFIVE_TT + 1 \<and> \<not> is_TT_stage (stage p) \<and> ttMove p = Pos_NONE
         \<and> MovePicker_call ref_stdlib 8 p = Some (x, p') \<and> x = 5 \<and> x \<noteq> 4)
   \<and> (\<exists>p. MovePicker_QVCF 0 FREESTYLE (sound_board no_threat) (qvcf_args 6) = Some p
         \<and> dispatch_QVCF (sound_board no_threat) 6 = Some (QVCF_TT, True)
         \<and> isEmpty (sound_board no_threat) 6
         \<and> stage p = QVCF_TT \<and> ttMove p = 6)"
proof -
  let ?B = "sound_board no_threat" and ?F = "sound_board white_five"
  note L = ref_stdlib_ok and g = sound_board_sound
  have tm: "main_ttMove (main_args t) = t" "main_mainHistory (main_args t) \<noteq> None" for t
    by (simp_all add: main_args_def)
  have tq: "qvcf_ttMove (qvcf_args t) = t" for t by (simp add: qvcf_args_def)
  have c8: "cell ?B 8 \<noteq> None" and c3: "cell ?B 3 \<noteq> None" and c6: "cell ?B 6 \<noteq> None"
    and c4: "cell ?F 4 \<noteq> None" by code_simp+
  note T8 = invalid_TT_move_skips_TT_stage [OF c8 tm tq, where rl = FREESTYLE
      and L = ref_stdlib and M = 8 and D = 0]
  note T3 = invalid_TT_move_skips_TT_stage [OF c3 tm tq, where rl = FREESTYLE
      and L = ref_stdlib and M = 8 and D = 0]
  note T4 = invalid_TT_move_skips_TT_stage [OF c4 tm tq, where rl = FREESTYLE
      and L = ref_stdlib and M = 8 and D = 0]
  note T6 = invalid_TT_move_skips_TT_stage [OF c6 tm tq, where rl = FREESTYLE
      and L = ref_stdlib and M = 8 and D = 0]
  have i1: "\<exists>p x p'. MovePicker_MAIN FREESTYLE ?B (main_args 8) = Some p
         \<and> dispatch_MAIN FREESTYLE ?B 8 = Some (MAIN_TT, True) \<and> \<not> isEmpty ?B 8
         \<and> stage p = MAIN_TT + 1 \<and> \<not> is_TT_stage (stage p) \<and> ttMove p = Pos_NONE
         \<and> MovePicker_call ref_stdlib 8 p = Some (x, p') \<and> x = 6 \<and> x \<noteq> 8"
  proof -
    from T8 [THEN conjunct1] obtain s v p where d: "dispatch_MAIN FREESTYLE ?B 8 = Some (s, v)"
      and c: "MovePicker_MAIN FREESTYLE ?B (main_args 8) = Some p"
      and o: "if v \<and> isEmpty ?B 8 then stage p = s \<and> ttMove p = 8
          else stage p = s + 1 \<and> \<not> is_TT_stage (stage p) \<and> ttMove p = Pos_NONE
            \<and> (\<forall>x p'. MovePicker_call ref_stdlib 8 p = Some (x, p') \<and> x \<noteq> Pos_NONE \<longrightarrow>
                  x \<in> pos ` set (moves p')
                  \<and> (stdlib_ok ref_stdlib \<and> generation_sound FREESTYLE ?B \<longrightarrow> x \<noteq> 8))"
      by blast
    have dv: "dispatch_MAIN FREESTYLE ?B 8 = Some (MAIN_TT, True)" by code_simp
    have e: "\<not> isEmpty ?B 8" by code_simp
    from d dv have sv: "s = MAIN_TT" "v = True" by simp_all
    have nb: "\<not> (v \<and> isEmpty ?B 8)" using e by simp
    from o [unfolded if_not_P [OF nb] sv(1)] have r: "stage p = MAIN_TT + 1" "\<not> is_TT_stage (stage p)" "ttMove p = Pos_NONE"
      and a: "\<forall>x p'. MovePicker_call ref_stdlib 8 p = Some (x, p') \<and> x \<noteq> Pos_NONE \<longrightarrow>
                  x \<in> pos ` set (moves p')
                  \<and> (stdlib_ok ref_stdlib \<and> generation_sound FREESTYLE ?B \<longrightarrow> x \<noteq> 8)"
      by blast+
    have "map_option fst (Option.bind (MovePicker_MAIN FREESTYLE ?B (main_args 8))
        (MovePicker_call ref_stdlib 8)) = Some 6" by code_simp
    then obtain p' where cl: "MovePicker_call ref_stdlib 8 p = Some (6, p')"
      unfolding c by auto
    from a cl L g(1) have "(6::int) \<noteq> 8" by (auto simp: Pos_NONE_def)
    with c dv e r cl show ?thesis by blast
  qed
  have i2: "\<exists>p x p'. MovePicker_QVCF 0 FREESTYLE ?B (qvcf_args 8) = Some p
         \<and> dispatch_QVCF ?B 8 = Some (QVCF_TT, True) \<and> \<not> isEmpty ?B 8
         \<and> stage p = QVCF_TT + 1 \<and> \<not> is_TT_stage (stage p) \<and> ttMove p = Pos_NONE
         \<and> MovePicker_call ref_stdlib 8 p = Some (x, p') \<and> x = 6 \<and> x \<noteq> 8"
  proof -
    from T8 [THEN conjunct2] obtain s v p where d: "dispatch_QVCF ?B 8 = Some (s, v)"
      and c: "MovePicker_QVCF 0 FREESTYLE ?B (qvcf_args 8) = Some p"
      and o: "if v \<and> isEmpty ?B 8 then stage p = s \<and> ttMove p = 8
          else stage p = s + 1 \<and> \<not> is_TT_stage (stage p) \<and> ttMove p = Pos_NONE
            \<and> (\<forall>x p'. MovePicker_call ref_stdlib 8 p = Some (x, p') \<and> x \<noteq> Pos_NONE \<longrightarrow>
                  x \<in> pos ` set (moves p')
                  \<and> (stdlib_ok ref_stdlib \<and> generation_sound FREESTYLE ?B \<longrightarrow> x \<noteq> 8))"
      by blast
    have dv: "dispatch_QVCF ?B 8 = Some (QVCF_TT, True)" by code_simp
    have e: "\<not> isEmpty ?B 8" by code_simp
    from d dv have sv: "s = QVCF_TT" "v = True" by simp_all
    have nb: "\<not> (v \<and> isEmpty ?B 8)" using e by simp
    from o [unfolded if_not_P [OF nb] sv(1)] have r: "stage p = QVCF_TT + 1" "\<not> is_TT_stage (stage p)" "ttMove p = Pos_NONE"
      and a: "\<forall>x p'. MovePicker_call ref_stdlib 8 p = Some (x, p') \<and> x \<noteq> Pos_NONE \<longrightarrow>
                  x \<in> pos ` set (moves p')
                  \<and> (stdlib_ok ref_stdlib \<and> generation_sound FREESTYLE ?B \<longrightarrow> x \<noteq> 8)"
      by blast+
    have "map_option fst (Option.bind (MovePicker_QVCF 0 FREESTYLE ?B (qvcf_args 8))
        (MovePicker_call ref_stdlib 8)) = Some 6" by code_simp
    then obtain p' where cl: "MovePicker_call ref_stdlib 8 p = Some (6, p')"
      unfolding c by auto
    from a cl L g(1) have "(6::int) \<noteq> 8" by (auto simp: Pos_NONE_def)
    with c dv e r cl show ?thesis by blast
  qed
  have i3: "\<exists>p. MovePicker_MAIN FREESTYLE ?B (main_args 3) = Some p
         \<and> dispatch_MAIN FREESTYLE ?B 3 = Some (MAIN_TT, True) \<and> isEmpty ?B 3
         \<and> stage p = MAIN_TT \<and> ttMove p = 3"
  proof -
    from T3 [THEN conjunct1] obtain s v p where d: "dispatch_MAIN FREESTYLE ?B 3 = Some (s, v)"
      and c: "MovePicker_MAIN FREESTYLE ?B (main_args 3) = Some p"
      and o: "if v \<and> isEmpty ?B 3 then stage p = s \<and> ttMove p = 3
          else stage p = s + 1 \<and> \<not> is_TT_stage (stage p) \<and> ttMove p = Pos_NONE
            \<and> (\<forall>x p'. MovePicker_call ref_stdlib 8 p = Some (x, p') \<and> x \<noteq> Pos_NONE \<longrightarrow>
                  x \<in> pos ` set (moves p')
                  \<and> (stdlib_ok ref_stdlib \<and> generation_sound FREESTYLE ?B \<longrightarrow> x \<noteq> 3))"
      by blast
    have dv: "dispatch_MAIN FREESTYLE ?B 3 = Some (MAIN_TT, True)" by code_simp
    have e: "isEmpty ?B 3" by code_simp
    from d dv have sv: "s = MAIN_TT" "v = True" by simp_all
    have yes: "v \<and> isEmpty ?B 3" using sv e by simp
    from o [unfolded if_P [OF yes] sv(1)] have r: "stage p = MAIN_TT" "ttMove p = 3" by blast+
    with c dv e show ?thesis by blast
  qed
  have i4: "\<exists>p x p'. MovePicker_QVCF 0 FREESTYLE ?B (qvcf_args 3) = Some p
         \<and> dispatch_QVCF ?B 3 = Some (QVCF_TT, False) \<and> isEmpty ?B 3
         \<and> stage p = QVCF_TT + 1 \<and> \<not> is_TT_stage (stage p) \<and> ttMove p = Pos_NONE
         \<and> MovePicker_call ref_stdlib 8 p = Some (x, p') \<and> x = 6 \<and> x \<noteq> 3"
  proof -
    from T3 [THEN conjunct2] obtain s v p where d: "dispatch_QVCF ?B 3 = Some (s, v)"
      and c: "MovePicker_QVCF 0 FREESTYLE ?B (qvcf_args 3) = Some p"
      and o: "if v \<and> isEmpty ?B 3 then stage p = s \<and> ttMove p = 3
          else stage p = s + 1 \<and> \<not> is_TT_stage (stage p) \<and> ttMove p = Pos_NONE
            \<and> (\<forall>x p'. MovePicker_call ref_stdlib 8 p = Some (x, p') \<and> x \<noteq> Pos_NONE \<longrightarrow>
                  x \<in> pos ` set (moves p')
                  \<and> (stdlib_ok ref_stdlib \<and> generation_sound FREESTYLE ?B \<longrightarrow> x \<noteq> 3))"
      by blast
    have dv: "dispatch_QVCF ?B 3 = Some (QVCF_TT, False)" by code_simp
    have e: "isEmpty ?B 3" by code_simp
    from d dv have sv: "s = QVCF_TT" "v = False" by simp_all
    have nb: "\<not> (v \<and> isEmpty ?B 3)" using sv by simp
    from o [unfolded if_not_P [OF nb] sv(1)] have r: "stage p = QVCF_TT + 1" "\<not> is_TT_stage (stage p)" "ttMove p = Pos_NONE"
      and a: "\<forall>x p'. MovePicker_call ref_stdlib 8 p = Some (x, p') \<and> x \<noteq> Pos_NONE \<longrightarrow>
                  x \<in> pos ` set (moves p')
                  \<and> (stdlib_ok ref_stdlib \<and> generation_sound FREESTYLE ?B \<longrightarrow> x \<noteq> 3)"
      by blast+
    have "map_option fst (Option.bind (MovePicker_QVCF 0 FREESTYLE ?B (qvcf_args 3))
        (MovePicker_call ref_stdlib 8)) = Some 6" by code_simp
    then obtain p' where cl: "MovePicker_call ref_stdlib 8 p = Some (6, p')"
      unfolding c by auto
    from a cl L g(1) have "(6::int) \<noteq> 3" by (auto simp: Pos_NONE_def)
    with c dv e r cl show ?thesis by blast
  qed
  have i5: "\<exists>p x p'. MovePicker_MAIN FREESTYLE ?F (main_args 4) = Some p
         \<and> dispatch_MAIN FREESTYLE ?F 4 = Some (DEFENDFIVE_TT, False) \<and> isEmpty ?F 4
         \<and> stage p = DEFENDFIVE_TT + 1 \<and> \<not> is_TT_stage (stage p) \<and> ttMove p = Pos_NONE
         \<and> MovePicker_call ref_stdlib 8 p = Some (x, p') \<and> x = 5 \<and> x \<noteq> 4"
  proof -
    from T4 [THEN conjunct1] obtain s v p where d: "dispatch_MAIN FREESTYLE ?F 4 = Some (s, v)"
      and c: "MovePicker_MAIN FREESTYLE ?F (main_args 4) = Some p"
      and o: "if v \<and> isEmpty ?F 4 then stage p = s \<and> ttMove p = 4
          else stage p = s + 1 \<and> \<not> is_TT_stage (stage p) \<and> ttMove p = Pos_NONE
            \<and> (\<forall>x p'. MovePicker_call ref_stdlib 8 p = Some (x, p') \<and> x \<noteq> Pos_NONE \<longrightarrow>
                  x \<in> pos ` set (moves p')
                  \<and> (stdlib_ok ref_stdlib \<and> generation_sound FREESTYLE ?F \<longrightarrow> x \<noteq> 4))"
      by blast
    have dv: "dispatch_MAIN FREESTYLE ?F 4 = Some (DEFENDFIVE_TT, False)" by code_simp
    have e: "isEmpty ?F 4" by code_simp
    from d dv have sv: "s = DEFENDFIVE_TT" "v = False" by simp_all
    have nb: "\<not> (v \<and> isEmpty ?F 4)" using sv by simp
    from o [unfolded if_not_P [OF nb] sv(1)] have r: "stage p = DEFENDFIVE_TT + 1" "\<not> is_TT_stage (stage p)"
        "ttMove p = Pos_NONE"
      and a: "\<forall>x p'. MovePicker_call ref_stdlib 8 p = Some (x, p') \<and> x \<noteq> Pos_NONE \<longrightarrow>
                  x \<in> pos ` set (moves p')
                  \<and> (stdlib_ok ref_stdlib \<and> generation_sound FREESTYLE ?F \<longrightarrow> x \<noteq> 4)"
      by blast+
    have "map_option fst (Option.bind (MovePicker_MAIN FREESTYLE ?F (main_args 4))
        (MovePicker_call ref_stdlib 8)) = Some 5" by code_simp
    then obtain p' where cl: "MovePicker_call ref_stdlib 8 p = Some (5, p')"
      unfolding c by auto
    from a cl L g(2) have "(5::int) \<noteq> 4" by (auto simp: Pos_NONE_def)
    with c dv e r cl show ?thesis by blast
  qed
  have i6: "\<exists>p. MovePicker_QVCF 0 FREESTYLE ?B (qvcf_args 6) = Some p
         \<and> dispatch_QVCF ?B 6 = Some (QVCF_TT, True) \<and> isEmpty ?B 6
         \<and> stage p = QVCF_TT \<and> ttMove p = 6"
  proof -
    from T6 [THEN conjunct2] obtain s v p where d: "dispatch_QVCF ?B 6 = Some (s, v)"
      and c: "MovePicker_QVCF 0 FREESTYLE ?B (qvcf_args 6) = Some p"
      and o: "if v \<and> isEmpty ?B 6 then stage p = s \<and> ttMove p = 6
          else stage p = s + 1 \<and> \<not> is_TT_stage (stage p) \<and> ttMove p = Pos_NONE
            \<and> (\<forall>x p'. MovePicker_call ref_stdlib 8 p = Some (x, p') \<and> x \<noteq> Pos_NONE \<longrightarrow>
                  x \<in> pos ` set (moves p')
                  \<and> (stdlib_ok ref_stdlib \<and> generation_sound FREESTYLE ?B \<longrightarrow> x \<noteq> 6))"
      by blast
    have dv: "dispatch_QVCF ?B 6 = Some (QVCF_TT, True)" by code_simp
    have e: "isEmpty ?B 6" by code_simp
    from d dv have sv: "s = QVCF_TT" "v = True" by simp_all
    have yes: "v \<and> isEmpty ?B 6" using sv e by simp
    from o [unfolded if_P [OF yes] sv(1)] have r: "stage p = QVCF_TT" "ttMove p = 6" by blast+
    with c dv e show ?thesis by blast
  qed
  from L g i1 i2 i3 i4 i5 i6 show ?thesis by (intro conjI)
qed

subsection \<open>Claim C7\<close>

text \<open>
Claim C7 says that with \<open>MAIN_HISTORY\<close> the score receives
  \<open>mainHistory[self][pos][ATTACK] >> 7\<close> or \<open>mainHistory[self][pos][QUIET] >> 8\<close>, an
  arithmetic right shift. The code divides (lines 265 and 267: \<open>/ 128\<close> and \<open>/ 256\<close>), and
  C++ division truncates towards zero. With the history entry \<open>- 1\<close> at the flex-three
  square 3 the score with \<open>MAIN_HISTORY\<close> equals the score without it: the contribution
  is 0, whereas \<open>- 1 >> 7\<close> is \<open>- 1\<close>.
\<close>
theorem MAIN_HISTORY_shift_counterexample:
  "map_option (\<lambda>p. map score (moves p))
       (scoreMoves BALANCED (test_picker FREESTYLE quiet_board [mk 3])) = Some [3]
   \<and> map_option (\<lambda>p. map score (moves p))
       (scoreMoves (BALANCED OR MAIN_HISTORY) (test_picker FREESTYLE quiet_board [mk 3])) = Some [3]
   \<and> map_option (\<lambda>c. H_FLEX3 \<le> pattern4 c BLACK) (cell quiet_board 3) = Some True
   \<and> test_history BLACK 3 HIST_ATTACK = - 1
   \<and> drop_bit 7 (- 1 :: int) = - 1"
  by (simp add: scoreMoves_def scoreMove_def baseScore_def addMainHistory_def
      addCounterMove_def addContHistory_def test_picker_def quiet_board_def test_board_def
      test_cells_def test_cell_def mk_def ScoreType_defs Let_def signed_divide_int_def
      test_history_def H_FLEX3_def)

text \<open>
Claim C7, amended: when the scorer runs with \<open>MAIN_HISTORY\<close>, each move at cell \<open>c\<close>
  receives, compared with the same run without the flag, an additive contribution to
  \<open>score\<close> and none to \<open>rawScore\<close>, equal to \<open>mainHistory[self][pos][ATTACK] / 128\<close> when
  \<open>c.pattern4[self] \<ge> H_FLEX3\<close> and to \<open>mainHistory[self][pos][QUIET] / 256\<close> otherwise,
  the division truncating towards zero. (For non-negative entries this is the shift by
  7 or 8.)
\<close>
theorem MAIN_HISTORY_contribution:
  assumes off: "Type AND MAIN_HISTORY = 0" and h: "mainHistory p = Some h"
    and s0: "scoreMoves Type p = Some p0"
  shows "\<exists>p1. scoreMoves (Type OR MAIN_HISTORY) p = Some p1
     \<and> length (moves p1) = length (moves p) \<and> length (moves p0) = length (moves p)
     \<and> (\<forall>i. curMove p \<le> i \<and> i < length (moves p) \<longrightarrow>
          (\<exists>c. cell (board p) (pos (moves p ! i)) = Some c
             \<and> score (moves p1 ! i) = score (moves p0 ! i)
                 + main_history_bonus h (sideToMove (board p)) c (pos (moves p ! i))
             \<and> rawScore (moves p1 ! i) = rawScore (moves p0 ! i)))"
proof -
  let ?ms = "drop (curMove p) (moves p)"
  let ?k = "curMove p"
  from s0 obtain ms0 mx0 where
    l0: "scoreMoves_loop Type p (Score_lowest sdiv 2) ?ms = Some (ms0, mx0)"
    and p0: "moves p0 = take ?k (moves p) @ ms0"
    by (auto simp: scoreMoves_def Let_def split: option.splits prod.splits)
  from scoreMoves_loop_bonus [OF off h l0] obtain ms1 where
    l1: "scoreMoves_loop (Type OR MAIN_HISTORY) p (Score_lowest sdiv 2) ?ms = Some (ms1, mx0)"
    and len: "length ms1 = length ?ms" "length ms0 = length ?ms"
    and el: "\<forall>i < length ?ms. \<exists>c. cell (board p) (pos (?ms ! i)) = Some c
             \<and> score (ms1 ! i) = score (ms0 ! i)
                 + main_history_bonus h (sideToMove (board p)) c (pos (?ms ! i))
             \<and> rawScore (ms1 ! i) = rawScore (ms0 ! i)"
    by blast
  obtain p1 where s1: "scoreMoves (Type OR MAIN_HISTORY) p = Some p1"
    and p1: "moves p1 = take ?k (moves p) @ ms1"
    using l1 by (simp add: scoreMoves_def Let_def)
  have "\<forall>i. ?k \<le> i \<and> i < length (moves p) \<longrightarrow>
          (\<exists>c. cell (board p) (pos (moves p ! i)) = Some c
             \<and> score (moves p1 ! i) = score (moves p0 ! i)
                 + main_history_bonus h (sideToMove (board p)) c (pos (moves p ! i))
             \<and> rawScore (moves p1 ! i) = rawScore (moves p0 ! i))"
  proof (intro allI impI)
    fix i assume i: "?k \<le> i \<and> i < length (moves p)"
    then have j: "i - ?k < length ?ms" by (simp, linarith)
    have n: "moves p ! i = ?ms ! (i - ?k)" using i by simp
    have "moves p1 ! i = ms1 ! (i - ?k)" "moves p0 ! i = ms0 ! (i - ?k)"
      using i by (simp_all add: p1 p0 nth_append min_def)
    then show "\<exists>c. cell (board p) (pos (moves p ! i)) = Some c
             \<and> score (moves p1 ! i) = score (moves p0 ! i)
                 + main_history_bonus h (sideToMove (board p)) c (pos (moves p ! i))
             \<and> rawScore (moves p1 ! i) = rawScore (moves p0 ! i)"
      using el j unfolding n by simp
  qed
  moreover have "length (moves p1) = length (moves p)" "length (moves p0) = length (moves p)"
    using len by (simp_all add: p1 p0)
  ultimately show ?thesis using s1 by blast
qed

theorem MAIN_HISTORY_contribution_witness:
  "BALANCED AND MAIN_HISTORY = 0
   \<and> mainHistory (test_picker FREESTYLE quiet_board [mk 7, mk 3]) = Some test_history
   \<and> map_option (\<lambda>p. map (\<lambda>m. (score m, rawScore m)) (moves p))
       (scoreMoves BALANCED (test_picker FREESTYLE quiet_board [mk 7, mk 3])) = Some [(5, 5), (3, 3)]
   \<and> map_option (\<lambda>p. map (\<lambda>m. (score m, rawScore m)) (moves p))
       (scoreMoves (BALANCED OR MAIN_HISTORY) (test_picker FREESTYLE quiet_board [mk 7, mk 3]))
       = Some [(4, 5), (3, 3)]
   \<and> (- 300) sdiv 256 = (- 1 :: int) \<and> (- 1) sdiv 128 = (0 :: int)"
proof -
  let ?p = "test_picker FREESTYLE quiet_board [mk 7, mk 3]"
  have off: "BALANCED AND MAIN_HISTORY = 0" by (simp add: ScoreType_defs)
  have h: "mainHistory ?p = Some test_history" by (simp add: test_picker_def)
  have s0: "map_option (\<lambda>p. map (\<lambda>m. (score m, rawScore m)) (moves p)) (scoreMoves BALANCED ?p)
      = Some [(5, 5), (3, 3)]"
    by (simp add: scoreMoves_def scoreMove_def baseScore_def addMainHistory_def
      addCounterMove_def addContHistory_def test_picker_def quiet_board_def test_board_def
      test_cells_def test_cell_def mk_def ScoreType_defs Let_def)
  then obtain p0 where p0: "scoreMoves BALANCED ?p = Some p0" by auto
  from MAIN_HISTORY_contribution [OF off h p0] obtain p1 where
    p1: "scoreMoves (BALANCED OR MAIN_HISTORY) ?p = Some p1" by blast
  have s1: "map_option (\<lambda>p. map (\<lambda>m. (score m, rawScore m)) (moves p))
       (scoreMoves (BALANCED OR MAIN_HISTORY) ?p) = Some [(4, 5), (3, 3)]"
    by (simp add: scoreMoves_def scoreMove_def baseScore_def addMainHistory_def
      addCounterMove_def addContHistory_def test_picker_def quiet_board_def test_board_def
      test_cells_def test_cell_def mk_def ScoreType_defs Let_def signed_divide_int_def
      test_history_def H_FLEX3_def FORBID_def)
  show ?thesis using off h s0 s1 p1 by (simp add: signed_divide_int_def)
qed

subsection \<open>Claim C8\<close>

text \<open>
Claim C8: at stage \<open>DEFENDFIVE_MOVES\<close>, if a TT move was yielded (the stored \<open>ttMove\<close>
  is not NONE) nothing is generated, the buffer is left empty and the call returns NONE;
  otherwise the buffer is what \<open>generate<DEFEND_FIVE>\<close> wrote, neither scored nor sorted,
  and the calls return its moves in generation order (those that pass the test of the
  ALLMOVES stage), then NONE. The hypotheses are the assertion of the case and the
  capacity of the buffer.
\<close>
theorem DEFENDFIVE_MOVES_stage:
  assumes "stage p = DEFENDFIVE_MOVES"
    and "p4Count (board p) (opposite (sideToMove (board p))) A_FIVE \<noteq> 0"
    and "length (generate (board p) G_DEFEND_FIVE) \<le> M"
  shows "if ttMove p \<noteq> Pos_NONE
         then MovePicker_call L M p
                = Some (Pos_NONE, p\<lparr>moves := [], curMove := 0, stage := ALLMOVES\<rparr>)
         else (\<exists>p'. calls L M (Suc (length (filter (streamable p) (generate (board p) G_DEFEND_FIVE)))) p
                 = Some (map pos (filter (streamable p) (generate (board p) G_DEFEND_FIVE))
                         @ [Pos_NONE], p')
               \<and> moves p' = generate (board p) G_DEFEND_FIVE)"
proof (cases "ttMove p \<noteq> Pos_NONE")
  case True
  have "pickNextMove Next (\<lambda>_. True) (p\<lparr>moves := [], curMove := 0, stage := ALLMOVES\<rparr>)
        = (Pos_NONE, p\<lparr>moves := [], curMove := 0, stage := ALLMOVES\<rparr>)"
    by (simp add: pickNextMove.simps)
  then show ?thesis using True assms
    by (simp add: MovePicker_call_def case_DEFENDFIVE_MOVES_def Let_def fill_buffer_def
        case_ALLMOVES_def is_TT_stage_def stage_defs)
next
  case False
  let ?g = "generate (board p) G_DEFEND_FIVE"
  let ?p0 = "p\<lparr>moves := ?g, curMove := 0, stage := ALLMOVES\<rparr>"
  have c: "MovePicker_call L M p = MovePicker_call L M ?p0"
    using False assms
    by (simp add: call_ALLMOVES)
       (simp add: MovePicker_call_def case_DEFENDFIVE_MOVES_def Let_def fill_buffer_def
          case_ALLMOVES_def is_TT_stage_def stage_defs)
  have sc: "streamable ?p0 = streamable p" by (rule streamable_cong) simp_all
  from ALLMOVES_stream [of ?p0 ?g L M] obtain p' where
    "calls L M (Suc (length (filter (streamable p) ?g))) ?p0
       = Some (map pos (filter (streamable p) ?g) @ [Pos_NONE], p')" "moves p' = ?g"
    unfolding sc by auto
  then show ?thesis using False calls_Suc_cong [OF c] by simp
qed

theorem DEFENDFIVE_MOVES_stage_witness:
  "\<exists>p pe q q'. MovePicker_MAIN FREESTYLE five_board (main_args 9) = Some p
     \<and> stage p = DEFENDFIVE_MOVES \<and> ttMove p = Pos_NONE
     \<and> p4Count (board p) (opposite (sideToMove (board p))) A_FIVE \<noteq> 0
     \<and> length (generate (board p) G_DEFEND_FIVE) \<le> 8
     \<and> map pos (generate (board p) G_DEFEND_FIVE) = [7, 3, 4]
     \<and> calls ref_stdlib 8 (Suc 3) p = Some ([7, 3, 4] @ [Pos_NONE], pe)
     \<and> moves pe = generate (board p) G_DEFEND_FIVE
     \<and> MovePicker_MAIN FREESTYLE five_board (main_args 5) = Some q
     \<and> MovePicker_call ref_stdlib 8 q = Some (5, q')
     \<and> stage q' = DEFENDFIVE_MOVES \<and> ttMove q' \<noteq> Pos_NONE
     \<and> MovePicker_call ref_stdlib 8 q'
         = Some (Pos_NONE, q'\<lparr>moves := [], curMove := 0, stage := ALLMOVES\<rparr>)"
proof -
  have "map_option (\<lambda>p. (stage p, ttMove p, rule p))
      (MovePicker_MAIN FREESTYLE five_board (main_args 9))
      = Some (DEFENDFIVE_MOVES, Pos_NONE, FREESTYLE)"
    by code_simp
  then obtain p where p: "MovePicker_MAIN FREESTYLE five_board (main_args 9) = Some p"
    and fp: "stage p = DEFENDFIVE_MOVES" "ttMove p = Pos_NONE" "rule p = FREESTYLE"
    by (cases "MovePicker_MAIN FREESTYLE five_board (main_args 9)") auto
  have bp: "board p = five_board" using MAIN_fields [OF p] by blast
  have five: "p4Count five_board (opposite (sideToMove five_board)) A_FIVE \<noteq> 0"
    "length (generate five_board G_DEFEND_FIVE) \<le> 8"
    "map pos (generate five_board G_DEFEND_FIVE) = [7, 3, 4]"
    by code_simp+
  have all: "filter (streamable p) (generate five_board G_DEFEND_FIVE)
      = generate five_board G_DEFEND_FIVE"
    using five(3) fp by (auto simp: streamable_def Pos_NONE_def filter_id_conv)
  have len: "length (generate five_board G_DEFEND_FIVE) = 3" by code_simp
  have "\<exists>p'. calls ref_stdlib 8
            (Suc (length (filter (streamable p) (generate (board p) G_DEFEND_FIVE)))) p
          = Some (map pos (filter (streamable p) (generate (board p) G_DEFEND_FIVE))
                  @ [Pos_NONE], p')
        \<and> moves p' = generate (board p) G_DEFEND_FIVE"
    using DEFENDFIVE_MOVES_stage [of p 8 ref_stdlib] fp five(1,2) bp by simp
  then have "\<exists>p'. calls ref_stdlib 8 (Suc 3) p = Some ([7, 3, 4] @ [Pos_NONE], p')
        \<and> moves p' = generate five_board G_DEFEND_FIVE"
    unfolding bp all len five(3) .
  then obtain pe where pe: "calls ref_stdlib 8 (Suc 3) p = Some ([7, 3, 4] @ [Pos_NONE], pe)"
    "moves pe = generate (board p) G_DEFEND_FIVE"
    unfolding bp by blast
  have "map_option (\<lambda>(x, p). (x, stage p, ttMove p))
      (Option.bind (MovePicker_MAIN FREESTYLE five_board (main_args 5))
         (MovePicker_call ref_stdlib 8)) = Some (5, DEFENDFIVE_MOVES, 5)" by code_simp
  then obtain q q' where q: "MovePicker_MAIN FREESTYLE five_board (main_args 5) = Some q"
    and c: "MovePicker_call ref_stdlib 8 q = Some (5, q')"
    and fq: "stage q' = DEFENDFIVE_MOVES" "ttMove q' = 5"
    by (cases "MovePicker_MAIN FREESTYLE five_board (main_args 5)")
       (auto simp: bind_eq_Some_conv)
  have bq: "board q = five_board" using MAIN_fields [OF q] by blast
  have "is_TT_stage (stage q)"
    using c fq(1) call_buffer [of q ref_stdlib 8 5 q'] by (auto simp: stage_defs)
  then have bq': "board q' = five_board"
    using c bq call_TT [of q ref_stdlib 8] by auto
  have ne: "ttMove q' \<noteq> Pos_NONE" using fq by (simp add: Pos_NONE_def)
  have "MovePicker_call ref_stdlib 8 q'
         = Some (Pos_NONE, q'\<lparr>moves := [], curMove := 0, stage := ALLMOVES\<rparr>)"
    using DEFENDFIVE_MOVES_stage [of q' 8 ref_stdlib] fq(1) five ne bq' by simp
  then have last: "MovePicker_call ref_stdlib 8 q'
         = Some (Pos_NONE, q'\<lparr>moves := [], curMove := 0, stage := ALLMOVES\<rparr>)" .
  have five': "p4Count (board p) (opposite (sideToMove (board p))) A_FIVE \<noteq> 0"
    "length (generate (board p) G_DEFEND_FIVE) \<le> 8"
    "map pos (generate (board p) G_DEFEND_FIVE) = [7, 3, 4]"
    using five unfolding bp by blast+
  show ?thesis
    by (insert p fp(1,2) five' pe q c fq(1) ne last, rule exI [of _ p], rule exI [of _ pe],
        rule exI [of _ q], rule exI [of _ q'], blast)
qed

subsection \<open>Claim C9\<close>

text \<open>
Claim C9: if the TT move is yielded at the initial \<open>*_TT\<close> stage (the stored \<open>ttMove\<close> is
  not NONE), the first call returns it and no later call returns that position again:
  the stream skips every buffer element at \<open>ttMove\<close>.
\<close>
theorem TT_move_never_yielded_again:
  assumes "is_TT_stage (stage p)" and "ttMove p \<noteq> Pos_NONE"
    and "calls L M (Suc n) p = Some (xs, p')"
  shows "hd xs = ttMove p \<and> ttMove p \<notin> set (tl xs)"
proof -
  let ?p1 = "p\<lparr>stage := stage p + 1\<rparr>"
  from assms(3) call_TT [OF assms(1), of L M] obtain ys where
    r: "calls L M n ?p1 = Some (ys, p')" and xs: "xs = ttMove p # ys"
    by (auto split: option.splits prod.splits)
  have nt: "\<not> is_TT_stage (stage ?p1)" using not_TT_succ [OF assms(1)] by simp
  from calls_buffer [OF nt r] assms(2) xs show ?thesis by auto
qed

theorem TT_move_never_yielded_again_witness:
  "\<exists>p xs p'. MovePicker_MAIN FREESTYLE quiet_board (main_args 4) = Some p
     \<and> is_TT_stage (stage p) \<and> ttMove p = 4 \<and> ttMove p \<noteq> Pos_NONE
     \<and> map pos (generate quiet_board G_ALL) = [7, 3, 4]
     \<and> calls ref_stdlib 8 (Suc 4) p = Some (xs, p') \<and> xs = [4, 7, 3, 0, 0]
     \<and> hd xs = ttMove p \<and> ttMove p \<notin> set (tl xs)"
proof -
  have ev: "map_option fst (Option.bind (MovePicker_MAIN FREESTYLE quiet_board (main_args 4))
       (calls ref_stdlib 8 (Suc 4))) = Some [4, 7, 3, 0, 0]" by code_simp
  then obtain p where p: "MovePicker_MAIN FREESTYLE quiet_board (main_args 4) = Some p"
    by (cases "MovePicker_MAIN FREESTYLE quiet_board (main_args 4)") auto
  with ev obtain p' where c: "calls ref_stdlib 8 (Suc 4) p = Some ([4, 7, 3, 0, 0], p')"
    by (cases "calls ref_stdlib 8 (Suc 4) p") auto
  have "map_option (\<lambda>p. (stage p, ttMove p))
      (MovePicker_MAIN FREESTYLE quiet_board (main_args 4)) = Some (MAIN_TT, 4)" by code_simp
  then have f: "stage p = MAIN_TT" "ttMove p = 4" using p by auto
  have tt: "is_TT_stage (stage p)" using f by (simp add: is_TT_stage_def)
  have ne: "ttMove p \<noteq> Pos_NONE" using f by (simp add: Pos_NONE_def)
  have g: "map pos (generate quiet_board G_ALL) = [7, 3, 4]" by code_simp
  from TT_move_never_yielded_again [OF tt ne c] show ?thesis using p f tt ne c g
    by (intro exI [of _ p] exI [of _ "[4, 7, 3, 0, 0]"] exI [of _ p']) simp
qed

subsection \<open>Claim C10\<close>

text \<open>
Claim C10 says that the main and the quick-VCF constructor evaluate
  \<open>board.cell(ttMove)\<close> before the emptiness check, also for \<open>ttMove = NONE\<close>, and so are
  well defined only if the lookup at NONE is inside the cell array. The main constructor
  reads the cell under the five and the open-four dispatch only (lines 140 and 145); under
  its other two dispatches the validity is the constant \<open>true\<close> and only
  \<open>isEmpty(ttMove)\<close> is evaluated. On a board without threats whose cell array does not
  reach the sentinel, the main constructor with \<open>ttMove = NONE\<close> returns a picker, at
  stage \<open>MAIN_MOVES\<close>.
\<close>
theorem cell_lookup_unguarded_counterexample:
  "cell partial_quiet_board Pos_NONE = None
   \<and> map_option (\<lambda>p. (stage p, ttMove p))
       (MovePicker_MAIN FREESTYLE partial_quiet_board (main_args Pos_NONE))
       = Some (MAIN_MOVES, Pos_NONE)"
  by code_simp

text \<open>
Claim C10, amended: the quick-VCF constructor under both of its dispatches, and the main
  constructor under the five and the open-four dispatch, evaluate \<open>board.cell(ttMove)\<close>
  before the emptiness check, also for \<open>ttMove = NONE\<close>, and are undefined when that
  lookup is outside the array, whatever \<open>isEmpty\<close> says; under its other two dispatches
  the main constructor does not read the cell and is defined.
\<close>
theorem cell_lookup_before_isEmpty:
  assumes "cell b tt = None" and "qvcf_ttMove qargs = tt" and "main_ttMove margs = tt"
  shows "MovePicker_QVCF D rl b qargs = None
     \<and> (p4Count b (opposite (sideToMove b)) A_FIVE \<noteq> 0
          \<or> p4Count b (opposite (sideToMove b)) B_FLEX4 \<noteq> 0
        \<longrightarrow> MovePicker_MAIN rl b margs = None)
     \<and> (p4Count b (opposite (sideToMove b)) A_FIVE = 0
          \<and> p4Count b (opposite (sideToMove b)) B_FLEX4 = 0
          \<and> main_mainHistory margs \<noteq> None
        \<longrightarrow> MovePicker_MAIN rl b margs \<noteq> None)"
proof (intro conjI impI)
  show "MovePicker_QVCF D rl b qargs = None"
    using assms by (simp add: MovePicker_QVCF_def dispatch_QVCF_def Let_def)
next
  assume "p4Count b (opposite (sideToMove b)) A_FIVE \<noteq> 0
          \<or> p4Count b (opposite (sideToMove b)) B_FLEX4 \<noteq> 0"
  then have "dispatch_MAIN rl b tt = None"
    using assms(1) by (auto simp: dispatch_MAIN_def Let_def)
  then show "MovePicker_MAIN rl b margs = None"
    using assms(3) by (simp add: MovePicker_MAIN_def)
next
  assume a: "p4Count b (opposite (sideToMove b)) A_FIVE = 0
          \<and> p4Count b (opposite (sideToMove b)) B_FLEX4 = 0
          \<and> main_mainHistory margs \<noteq> None"
  then have "dispatch_MAIN rl b tt \<noteq> None"
    by (auto simp: dispatch_MAIN_def Let_def)
  then show "MovePicker_MAIN rl b margs \<noteq> None"
    using a assms(3) by (auto simp: MovePicker_MAIN_def Let_def)
qed

theorem cell_lookup_before_isEmpty_witness:
  "cell partial_five_board Pos_NONE = None \<and> cell partial_quiet_board Pos_NONE = None
   \<and> qvcf_ttMove (qvcf_args Pos_NONE) = Pos_NONE \<and> main_ttMove (main_args Pos_NONE) = Pos_NONE
   \<and> p4Count partial_five_board (opposite (sideToMove partial_five_board)) A_FIVE \<noteq> 0
   \<and> MovePicker_QVCF 0 FREESTYLE partial_five_board (qvcf_args Pos_NONE) = None
   \<and> MovePicker_QVCF 0 FREESTYLE partial_quiet_board (qvcf_args Pos_NONE) = None
   \<and> MovePicker_MAIN FREESTYLE partial_five_board (main_args Pos_NONE) = None
   \<and> p4Count partial_quiet_board (opposite (sideToMove partial_quiet_board)) A_FIVE = 0
   \<and> p4Count partial_quiet_board (opposite (sideToMove partial_quiet_board)) B_FLEX4 = 0
   \<and> main_mainHistory (main_args Pos_NONE) \<noteq> None
   \<and> MovePicker_MAIN FREESTYLE partial_quiet_board (main_args Pos_NONE) \<noteq> None"
proof -
  have c: "cell partial_five_board Pos_NONE = None" "cell partial_quiet_board Pos_NONE = None"
    by code_simp+
  have t: "qvcf_ttMove (qvcf_args Pos_NONE) = Pos_NONE" "main_ttMove (main_args Pos_NONE) = Pos_NONE"
    by (simp_all add: qvcf_args_def main_args_def)
  have f: "p4Count partial_five_board (opposite (sideToMove partial_five_board)) A_FIVE \<noteq> 0"
    by code_simp
  have n: "p4Count partial_quiet_board (opposite (sideToMove partial_quiet_board)) A_FIVE = 0"
    "p4Count partial_quiet_board (opposite (sideToMove partial_quiet_board)) B_FLEX4 = 0"
    by code_simp+
  have h: "main_mainHistory (main_args Pos_NONE) \<noteq> None" by (simp add: main_args_def)
  show ?thesis
    using cell_lookup_before_isEmpty [OF c(1) t, of 0 FREESTYLE]
      cell_lookup_before_isEmpty [OF c(2) t, of 0 FREESTYLE] c t f n h
    by simp
qed

end
